theory Spec2Isabelle
  imports Main
begin

section \<open>Domain model (aregalo/schema.py)\<close>

text \<open>
  Every dataclass of \<^verbatim>\<open>schema.py\<close> is a record with the fields of the source, in the
  source's order. Python's \<^verbatim>\<open>int\<close> is unbounded, so it is \<^typ>\<open>int\<close>; \<^verbatim>\<open>Optional[str]\<close>
  and \<^verbatim>\<open>Optional[int]\<close> are options. Several dataclasses share field names, so a field
  is always written with its record's name in front (\<open>Present.id\<close>, \<open>PresentWishData.id\<close>);
  \<^verbatim>\<open>alias\<close> is a command name of Isabelle and is written \<open>alias'\<close>.

  The \<^verbatim>\<open>assigned_to\<close> of a \<^verbatim>\<open>Present\<close> is a Python list object that the service changes
  in place, and nothing in \<^verbatim>\<open>schema.py\<close> or \<^verbatim>\<open>store.py\<close> copies it: two presents
  built from one YAML node hold the same object. So the field is the address of the list
  object, a \<open>ref\<close>, and the contents of the list objects are kept with the store.
\<close>

type_synonym ref = nat

record User =
  name :: string
  alias' :: string
  icon :: string
  present_id :: int

record UserData =
  name :: string
  alias' :: string
  icon :: string

record Present =
  id :: int
  title :: string
  description :: string
  link :: "string option"
  price :: "int option"
  favourite :: bool
  assigned_to :: ref

record PresentCreateData =
  title :: string
  description :: string
  link :: "string option"
  price :: "int option"
  favourite :: bool

record PresentWishData =
  id :: int
  title :: string
  description :: string
  link :: "string option"
  price :: "int option"
  favourite :: bool

record PresentGiftData =
  id :: int
  title :: string
  description :: string
  link :: "string option"
  price :: "int option"
  favourite :: bool
  assigned_to :: "string list"

text \<open>\<^verbatim>\<open>User.to_user_data\<close>\<close>

definition to_user_data :: "User \<Rightarrow> UserData" where
  "to_user_data self =
     \<lparr> UserData.name = User.name self,
       UserData.alias' = User.alias' self,
       UserData.icon = User.icon self \<rparr>"

text \<open>\<^verbatim>\<open>Present.to_present_wish_response\<close>\<close>

definition to_present_wish_response :: "Present \<Rightarrow> PresentWishData" where
  "to_present_wish_response self =
     \<lparr> PresentWishData.id = Present.id self,
       PresentWishData.title = Present.title self,
       PresentWishData.description = Present.description self,
       PresentWishData.link = Present.link self,
       PresentWishData.price = Present.price self,
       PresentWishData.favourite = Present.favourite self \<rparr>"

text \<open>
  \<^verbatim>\<open>Present.to_present_gift_response\<close>. The response is serialised when the service call
  returns, so it carries the contents that the list object has then: \<open>lists'\<close> gives the
  contents of every list object.
\<close>

definition to_present_gift_response :: "(ref \<Rightarrow> string list) \<Rightarrow> Present \<Rightarrow> PresentGiftData" where
  "to_present_gift_response lists' self =
     \<lparr> PresentGiftData.id = Present.id self,
       PresentGiftData.title = Present.title self,
       PresentGiftData.description = Present.description self,
       PresentGiftData.link = Present.link self,
       PresentGiftData.price = Present.price self,
       PresentGiftData.favourite = Present.favourite self,
       PresentGiftData.assigned_to = lists' (Present.assigned_to self) \<rparr>"

text \<open>\<^verbatim>\<open>PresentCreateData.to_present(id, assigned_to)\<close>\<close>

definition create_to_present :: "PresentCreateData \<Rightarrow> int \<Rightarrow> ref \<Rightarrow> Present" where
  "create_to_present self id' assigned_to' =
     \<lparr> Present.id = id',
       Present.title = PresentCreateData.title self,
       Present.description = PresentCreateData.description self,
       Present.link = PresentCreateData.link self,
       Present.price = PresentCreateData.price self,
       Present.favourite = PresentCreateData.favourite self,
       Present.assigned_to = assigned_to' \<rparr>"

text \<open>
  \<^verbatim>\<open>PresentWishData.to_present(assigned_to)\<close>: the id is the payload's own, and the new
  present holds the list object it is given.
\<close>

definition wish_to_present :: "PresentWishData \<Rightarrow> ref \<Rightarrow> Present" where
  "wish_to_present self assigned_to' =
     \<lparr> Present.id = PresentWishData.id self,
       Present.title = PresentWishData.title self,
       Present.description = PresentWishData.description self,
       Present.link = PresentWishData.link self,
       Present.price = PresentWishData.price self,
       Present.favourite = PresentWishData.favourite self,
       Present.assigned_to = assigned_to' \<rparr>"

section \<open>Record store (aregalo/store.py)\<close>

text \<open>
  \<^verbatim>\<open>FileStore\<close> keeps two dictionaries, \<^verbatim>\<open>_users\<close> and \<^verbatim>\<open>_presents\<close>, keyed by user
  name; every upsert replaces one entry and rewrites the whole file from the dictionary,
  so between two service calls the files mirror the dictionaries and the model keeps the
  dictionaries only. With them it keeps the list objects that the presents refer to:
  \<open>lists\<close> gives the contents of the object at each address, and \<open>next_ref\<close> is the
  address that the next new list object gets.
\<close>

record FileStore =
  users :: "string \<rightharpoonup> User"
  presents :: "string \<rightharpoonup> Present list"
  lists :: "ref \<Rightarrow> string list"
  next_ref :: ref

definition get_user :: "FileStore \<Rightarrow> string \<Rightarrow> User option" where
  "get_user self name' = users self name'"

definition upsert_user :: "FileStore \<Rightarrow> User \<Rightarrow> FileStore" where
  "upsert_user self user = self\<lparr>users := (users self)(User.name user \<mapsto> user)\<rparr>"

definition get_presents :: "FileStore \<Rightarrow> string \<Rightarrow> Present list option" where
  "get_presents self name' = presents self name'"

definition upsert_presents :: "FileStore \<Rightarrow> string \<Rightarrow> Present list \<Rightarrow> FileStore" where
  "upsert_presents self name' presents' = self\<lparr>presents := (presents self)(name' \<mapsto> presents')\<rparr>"

section \<open>Registry service (aregalo/service.py)\<close>

text \<open>
  The two \<^verbatim>\<open>HTTPException\<close>s with status 404 are \<open>UserNotFound\<close> (detail
  \<^verbatim>\<open>No user with name ...\<close>) and \<open>PresentNotFound\<close> (detail \<^verbatim>\<open>No present with id ...\<close>).
  The other constructors are the exceptions the Python runtime raises itself: reading an
  attribute of \<^verbatim>\<open>None\<close> (\<open>AttributeError\<close>), iterating over \<^verbatim>\<open>None\<close> (\<open>TypeError\<close>)
  and \<^verbatim>\<open>list.index\<close> of a missing element (\<open>ValueError\<close>).
\<close>

datatype error = UserNotFound | PresentNotFound | AttributeError | TypeError | ValueError

text \<open>
  Equality of two \<^verbatim>\<open>Present\<close> objects (the \<^verbatim>\<open>__eq__\<close> of the dataclass) compares all their
  fields, the \<^verbatim>\<open>assigned_to\<close> lists by their contents.
\<close>

definition present_eq :: "(ref \<Rightarrow> string list) \<Rightarrow> Present \<Rightarrow> Present \<Rightarrow> bool" where
  "present_eq lists' p q \<longleftrightarrow>
     Present.id p = Present.id q \<and> Present.title p = Present.title q \<and>
     Present.description p = Present.description q \<and> Present.link p = Present.link q \<and>
     Present.price p = Present.price q \<and> Present.favourite p = Present.favourite q \<and>
     lists' (Present.assigned_to p) = lists' (Present.assigned_to q)"

text \<open>\<^verbatim>\<open>list.index(x)\<close>: the first position holding a value equal to \<open>x\<close>.\<close>

fun index :: "('a \<Rightarrow> 'a \<Rightarrow> bool) \<Rightarrow> 'a list \<Rightarrow> 'a \<Rightarrow> nat option" where
  "index eq [] x = None"
| "index eq (y # ys) x = (if eq y x then Some 0 else map_option Suc (index eq ys x))"

text \<open>
  A service call returns its result or the exception it raised, together with the store
  as the call left it: an exception does not undo the writes made before it.
\<close>

type_synonym 'a outcome = "(error + 'a) \<times> FileStore"

definition get_user_data :: "FileStore \<Rightarrow> string \<Rightarrow> error + UserData" where
  "get_user_data store user =
     (case get_user store user of
        None \<Rightarrow> Inl UserNotFound
      | Some store_user \<Rightarrow> Inr (to_user_data store_user))"

definition get_user_present_wish_list :: "FileStore \<Rightarrow> string \<Rightarrow> error + PresentWishData list" where
  "get_user_present_wish_list store user =
     (case get_presents store user of
        None \<Rightarrow> Inl UserNotFound
      | Some store_presents \<Rightarrow> Inr (map to_present_wish_response store_presents))"

definition get_user_present_gift_list :: "FileStore \<Rightarrow> string \<Rightarrow> error + PresentGiftData list" where
  "get_user_present_gift_list store user =
     (case get_presents store user of
        None \<Rightarrow> Inl UserNotFound
      | Some store_presents \<Rightarrow>
          Inr (map (to_present_gift_response (lists store)) store_presents))"

text \<open>
  \<^verbatim>\<open>find_present_in_list_by_id\<close>: \<^verbatim>\<open>filter\<close> over the result of \<^verbatim>\<open>get_presents\<close> with no
  test for \<^verbatim>\<open>None\<close>, the first match or \<^verbatim>\<open>None\<close>, then \<^verbatim>\<open>presents.index\<close> of the match.
\<close>

definition find_present_in_list_by_id ::
  "FileStore \<Rightarrow> string \<Rightarrow> int \<Rightarrow> error + (Present list \<times> Present \<times> nat)" where
  "find_present_in_list_by_id store user present_id' =
     (case get_presents store user of
        None \<Rightarrow> Inl TypeError
      | Some presents' \<Rightarrow>
          (case find (\<lambda>p. Present.id p = present_id') presents' of
             None \<Rightarrow> Inl PresentNotFound
           | Some found_present \<Rightarrow>
               (case index (present_eq (lists store)) presents' found_present of
                  None \<Rightarrow> Inl ValueError
                | Some found_present_index \<Rightarrow> Inr (presents', found_present, found_present_index))))"

text \<open>
  \<^verbatim>\<open>create_present\<close>. The user object returned by \<^verbatim>\<open>get_user\<close> is the one the dictionary
  holds under the key \<open>user\<close>, so the assignment to its \<^verbatim>\<open>present_id\<close> changes that entry
  at once; \<^verbatim>\<open>upsert_user\<close> then stores the same object under its own \<^verbatim>\<open>name\<close>.
  \<^verbatim>\<open>presents.append\<close> is looked up before its argument is built, so the new empty list
  object of \<^verbatim>\<open>assigned_to=[]\<close> exists only when there is a list to append to.
\<close>

definition create_present ::
  "FileStore \<Rightarrow> string \<Rightarrow> PresentCreateData \<Rightarrow> PresentWishData list outcome" where
  "create_present store user present =
     (case get_user store user of
        None \<Rightarrow> (Inl AttributeError, store)
      | Some wish_user \<Rightarrow>
          (let present_id' = User.present_id wish_user;
               wish_user' = wish_user\<lparr>User.present_id := present_id' + 1\<rparr>;
               store1 = upsert_user (store\<lparr>users := (users store)(user \<mapsto> wish_user')\<rparr>) wish_user'
           in case get_presents store1 user of
                None \<Rightarrow> (Inl AttributeError, store1)
              | Some presents' \<Rightarrow>
                  (let new_list = next_ref store1;
                       store2 = store1\<lparr>lists := (lists store1)(new_list := []),
                                       next_ref := Suc new_list\<rparr>;
                       presents'' = presents' @ [create_to_present present present_id' new_list]
                   in (Inr (map to_present_wish_response presents''),
                       upsert_presents store2 user presents''))))"

text \<open>
  The list returned by \<^verbatim>\<open>get_presents\<close> is the list the dictionary holds. The four
  operations below change it in place and pass it to \<^verbatim>\<open>upsert_presents\<close> in the next
  statement, which cannot raise in between, so the model writes the changed list once. The
  present lists and the user objects are taken as not shared between two keys:
  \<^verbatim>\<open>_load_users\<close> and \<^verbatim>\<open>_load_presents\<close> build a new object for every key. The
  \<^verbatim>\<open>assigned_to\<close> lists may be shared, between presents of one owner or of several.
\<close>

definition update_present ::
  "FileStore \<Rightarrow> string \<Rightarrow> int \<Rightarrow> PresentWishData \<Rightarrow> PresentWishData list outcome" where
  "update_present store user present_id' present =
     (case find_present_in_list_by_id store user present_id' of
        Inl e \<Rightarrow> (Inl e, store)
      | Inr (presents', found_present, found_present_index) \<Rightarrow>
          (let presents'' = presents'[found_present_index :=
                              wish_to_present present (Present.assigned_to found_present)]
           in (Inr (map to_present_wish_response presents''),
               upsert_presents store user presents'')))"

text \<open>\<^verbatim>\<open>del presents[found_present_index]\<close> drops the element at that position.\<close>

definition delete_present ::
  "FileStore \<Rightarrow> string \<Rightarrow> int \<Rightarrow> PresentWishData list outcome" where
  "delete_present store user present_id' =
     (case find_present_in_list_by_id store user present_id' of
        Inl e \<Rightarrow> (Inl e, store)
      | Inr (presents', found_present, found_present_index) \<Rightarrow>
          (let presents'' = take found_present_index presents' @ drop (Suc found_present_index) presents'
           in (Inr (map to_present_wish_response presents''),
               upsert_presents store user presents'')))"

text \<open>
  \<^verbatim>\<open>presents[found_present_index].assigned_to.append(gifter)\<close> changes the list object
  itself, and with it what every present holding that object shows.
\<close>

definition assign_user_to_present ::
  "FileStore \<Rightarrow> string \<Rightarrow> int \<Rightarrow> string \<Rightarrow> PresentGiftData list outcome" where
  "assign_user_to_present store user present_id' gifter =
     (case find_present_in_list_by_id store user present_id' of
        Inl e \<Rightarrow> (Inl e, store)
      | Inr (presents', found_present, found_present_index) \<Rightarrow>
          (let assigned = Present.assigned_to (presents' ! found_present_index)
           in if gifter \<notin> set (lists store assigned)
              then
                (let store1 = store\<lparr>lists := (lists store)(assigned := lists store assigned @ [gifter])\<rparr>;
                     store2 = upsert_presents store1 user presents'
                 in (Inr (map (to_present_gift_response (lists store2)) presents'), store2))
              else (Inr (map (to_present_gift_response (lists store)) presents'), store)))"

text \<open>\<^verbatim>\<open>list.remove(x)\<close> removes the first occurrence of \<open>x\<close>: \<^const>\<open>remove1\<close>.\<close>

definition remove_user_from_present ::
  "FileStore \<Rightarrow> string \<Rightarrow> int \<Rightarrow> string \<Rightarrow> PresentGiftData list outcome" where
  "remove_user_from_present store user present_id' gifter =
     (case find_present_in_list_by_id store user present_id' of
        Inl e \<Rightarrow> (Inl e, store)
      | Inr (presents', found_present, found_present_index) \<Rightarrow>
          (let assigned = Present.assigned_to (presents' ! found_present_index)
           in if gifter \<in> set (lists store assigned)
              then
                (let store1 = store\<lparr>lists := (lists store)(assigned := remove1 gifter (lists store assigned))\<rparr>;
                     store2 = upsert_presents store1 user presents'
                 in (Inr (map (to_present_gift_response (lists store2)) presents'), store2))
              else (Inr (map (to_present_gift_response (lists store)) presents'), store)))"

section \<open>Vocabulary of the properties\<close>

text \<open>
  The position at which \<^verbatim>\<open>find_present_in_list_by_id\<close> finds a present: the first one
  whose id is \<open>p\<close>.
\<close>

definition position_of :: "int \<Rightarrow> Present list \<Rightarrow> nat" where
  "position_of p ps = length (takeWhile (\<lambda>q. Present.id q \<noteq> p) ps)"

subsection \<open>A small registry used as concrete input\<close>

text \<open>
  Alice's list has two presents; the list object at address 0 holds bob, the one at
  address 1 is empty.
\<close>

definition alice :: User where
  "alice = \<lparr> User.name = ''alice'', User.alias' = ''Alice'', User.icon = ''cat'',
             User.present_id = 3 \<rparr>"

definition book :: Present where
  "book = \<lparr> Present.id = 1, Present.title = ''Book'', Present.description = '''',
            Present.link = Some '''', Present.price = None, Present.favourite = False,
            Present.assigned_to = 0 \<rparr>"

definition bike :: Present where
  "bike = \<lparr> Present.id = 2, Present.title = ''Bike'', Present.description = '''',
            Present.link = Some '''', Present.price = Some 100, Present.favourite = True,
            Present.assigned_to = 1 \<rparr>"

definition store0 :: FileStore where
  "store0 = \<lparr> users = [''alice'' \<mapsto> alice], presents = [''alice'' \<mapsto> [book, bike]],
               lists = (\<lambda>r. [])(0 := [''bob'']), next_ref = 2 \<rparr>"

definition store_no_list :: FileStore where
  "store_no_list = \<lparr> users = [''alice'' \<mapsto> alice], presents = Map.empty,
                      lists = (\<lambda>r. []), next_ref = 0 \<rparr>"

text \<open>
  A registry in which both presents of alice's list hold the list object at address 0, as
  two presents loaded from one YAML node do.
\<close>

definition bike_shared :: Present where
  "bike_shared = bike\<lparr>Present.assigned_to := 0\<rparr>"

definition store_shared :: FileStore where
  "store_shared = \<lparr> users = [''alice'' \<mapsto> alice],
                     presents = [''alice'' \<mapsto> [book, bike_shared]],
                     lists = (\<lambda>r. [])(0 := [''bob'']), next_ref = 1 \<rparr>"

definition novel :: PresentWishData where
  "novel = \<lparr> PresentWishData.id = 7, PresentWishData.title = ''Novel'',
      PresentWishData.description = ''x'', PresentWishData.link = None,
      PresentWishData.price = Some 5, PresentWishData.favourite = True \<rparr>"

definition clash :: PresentWishData where
  "clash = \<lparr> PresentWishData.id = 2, PresentWishData.title = ''Novel'',
      PresentWishData.description = ''x'', PresentWishData.link = None,
      PresentWishData.price = Some 5, PresentWishData.favourite = True \<rparr>"

definition renumber :: PresentWishData where
  "renumber = \<lparr> PresentWishData.id = 3, PresentWishData.title = ''Bike'',
      PresentWishData.description = '''', PresentWishData.link = Some '''',
      PresentWishData.price = Some 100, PresentWishData.favourite = True \<rparr>"

definition socks :: PresentCreateData where
  "socks = \<lparr> PresentCreateData.title = ''Socks'', PresentCreateData.description = '''',
      PresentCreateData.link = Some '''', PresentCreateData.price = None,
      PresentCreateData.favourite = False \<rparr>"

definition retitled :: PresentWishData where
  "retitled = \<lparr> PresentWishData.id = 1, PresentWishData.title = ''Atlas'',
      PresentWishData.description = '''', PresentWishData.link = Some '''',
      PresentWishData.price = Some 20, PresentWishData.favourite = False \<rparr>"

subsection \<open>Stores that differ in gifter assignments only\<close>

text \<open>
  Two presents that agree on every field but \<open>assigned_to\<close>, and two stores with the same
  user records whose lists agree position by position up to \<open>assigned_to\<close>; the list
  objects of the two stores are unrelated.
\<close>

definition same_but_assigned :: "Present \<Rightarrow> Present \<Rightarrow> bool" where
  "same_but_assigned p q \<longleftrightarrow>
     Present.id p = Present.id q \<and> Present.title p = Present.title q \<and>
     Present.description p = Present.description q \<and> Present.link p = Present.link q \<and>
     Present.price p = Present.price q \<and> Present.favourite p = Present.favourite q"

definition wish_equivalent :: "FileStore \<Rightarrow> FileStore \<Rightarrow> bool" where
  "wish_equivalent s t \<longleftrightarrow>
     users s = users t \<and>
     (\<forall>u. rel_option (list_all2 same_but_assigned) (presents s u) (presents t u))"

definition store0_regifted :: FileStore where
  "store0_regifted =
     \<lparr> users = [''alice'' \<mapsto> alice],
       presents = [''alice'' \<mapsto> [book\<lparr>Present.assigned_to := 5\<rparr>, bike]],
       lists = (\<lambda>r. [])(1 := [''dan'', ''bob'']), next_ref = 6 \<rparr>"

subsection \<open>Sequences of creations and deletions for one owner\<close>

text \<open>
  A caller that issues \<^verbatim>\<open>create_present\<close> and \<^verbatim>\<open>delete_present\<close> calls for one owner, one
  after the other, going on after a call that raised. The events it sees: the id of the
  present a successful creation appended (the last of the returned list) and the id a
  successful deletion removed.
\<close>

datatype wish_call = Create PresentCreateData | Delete int

datatype event = Minted int | Deleted int

definition call_step :: "FileStore \<Rightarrow> string \<Rightarrow> wish_call \<Rightarrow> event list \<times> FileStore" where
  "call_step s u c =
     (case c of
        Create d \<Rightarrow>
          (case create_present s u d of
             (Inr views, s') \<Rightarrow> ([Minted (PresentWishData.id (last views))], s')
           | (Inl e, s') \<Rightarrow> ([], s'))
      | Delete p \<Rightarrow>
          (case delete_present s u p of
             (Inr views, s') \<Rightarrow> ([Deleted p], s')
           | (Inl e, s') \<Rightarrow> ([], s')))"

fun run_calls :: "FileStore \<Rightarrow> string \<Rightarrow> wish_call list \<Rightarrow> event list" where
  "run_calls s u [] = []"
| "run_calls s u (c # cs) = fst (call_step s u c) @ run_calls (snd (call_step s u c)) u cs"

fun minted :: "event list \<Rightarrow> int list" where
  "minted [] = []"
| "minted (Minted i # es) = i # minted es"
| "minted (Deleted i # es) = minted es"

fun creates :: "wish_call list \<Rightarrow> nat" where
  "creates [] = 0"
| "creates (Create d # cs) = Suc (creates cs)"
| "creates (Delete p # cs) = creates cs"

fun never_reminted :: "event list \<Rightarrow> bool" where
  "never_reminted [] = True"
| "never_reminted (Deleted i # es) = (i \<notin> set (minted es) \<and> never_reminted es)"
| "never_reminted (Minted i # es) = never_reminted es"

subsection \<open>The list invariants and sequences of registry calls\<close>

text \<open>
  The invariants of a present list, given the contents of the list objects: ids pairwise
  distinct, no \<open>assigned_to\<close> with a duplicate. A call of one of the five mutating operations is performed whether it
  succeeds or raises; what remains is the store it left. A call is admissible in a store
  when it brings no second present with the same id: an update whose payload carries the
  id it updates, or an id no present of the list has, and a creation for which the owner's
  counter is not the id of a present of the list.
\<close>

definition list_invariants :: "(ref \<Rightarrow> string list) \<Rightarrow> Present list \<Rightarrow> bool" where
  "list_invariants lists' ps \<longleftrightarrow>
     distinct (map Present.id ps) \<and> (\<forall>q \<in> set ps. distinct (lists' (Present.assigned_to q)))"

definition lists_ok :: "FileStore \<Rightarrow> bool" where
  "lists_ok s \<longleftrightarrow> (\<forall>u ps. presents s u = Some ps \<longrightarrow> list_invariants (lists s) ps)"

definition assigned_ok :: "FileStore \<Rightarrow> bool" where
  "assigned_ok s \<longleftrightarrow>
     (\<forall>u ps. presents s u = Some ps \<longrightarrow>
        (\<forall>q \<in> set ps. distinct (lists s (Present.assigned_to q))))"

datatype call =
    CreatePresent string PresentCreateData
  | UpdatePresent string int PresentWishData
  | DeletePresent string int
  | AssignUser string int string
  | RemoveUser string int string

fun perform :: "FileStore \<Rightarrow> call \<Rightarrow> FileStore" where
  "perform s (CreatePresent u c) = snd (create_present s u c)"
| "perform s (UpdatePresent u p d) = snd (update_present s u p d)"
| "perform s (DeletePresent u p) = snd (delete_present s u p)"
| "perform s (AssignUser u p g) = snd (assign_user_to_present s u p g)"
| "perform s (RemoveUser u p g) = snd (remove_user_from_present s u p g)"

fun admissible :: "FileStore \<Rightarrow> call \<Rightarrow> bool" where
  "admissible s (CreatePresent u c) =
     (case users s u of
        None \<Rightarrow> True
      | Some usr \<Rightarrow>
          (case presents s u of
             None \<Rightarrow> True
           | Some ps \<Rightarrow> User.present_id usr \<notin> Present.id ` set ps))"
| "admissible s (UpdatePresent u p d) =
     (case presents s u of
        None \<Rightarrow> True
      | Some ps \<Rightarrow> PresentWishData.id d = p \<or> PresentWishData.id d \<notin> Present.id ` set ps)"
| "admissible s (DeletePresent u p) = True"
| "admissible s (AssignUser u p g) = True"
| "admissible s (RemoveUser u p g) = True"

fun perform_all :: "FileStore \<Rightarrow> call list \<Rightarrow> FileStore" where
  "perform_all s [] = s"
| "perform_all s (c # cs) = perform_all (perform s c) cs"

fun admissible_all :: "FileStore \<Rightarrow> call list \<Rightarrow> bool" where
  "admissible_all s [] = True"
| "admissible_all s (c # cs) = (admissible s c \<and> admissible_all (perform s c) cs)"

definition store_counter_behind :: FileStore where
  "store_counter_behind =
     \<lparr> users = [''alice'' \<mapsto> alice\<lparr>User.present_id := 2\<rparr>],
       presents = [''alice'' \<mapsto> [book, bike]],
       lists = (\<lambda>r. [])(0 := [''bob'']), next_ref = 2 \<rparr>"

definition calls0 :: "call list" where
  "calls0 = [CreatePresent ''alice'' socks, UpdatePresent ''alice'' 1 retitled,
             AssignUser ''alice'' 2 ''carol'', RemoveUser ''alice'' 1 ''bob'',
             DeletePresent ''alice'' 2, UpdatePresent ''alice'' 3 novel]"

subsection \<open>Allocation of list objects\<close>

text \<open>
  A new list object is no object that a present already holds. In the model the new
  address is \<open>next_ref\<close>, so this is the case in a store where every address held by a
  present is below \<open>next_ref\<close>.
\<close>

definition refs_allocated :: "FileStore \<Rightarrow> bool" where
  "refs_allocated s \<longleftrightarrow>
     (\<forall>u ps. presents s u = Some ps \<longrightarrow> (\<forall>q \<in> set ps. Present.assigned_to q < next_ref s))"

section \<open>Locating a present\<close>

text \<open>
  The first element that satisfies \<open>P\<close> is found by \<^verbatim>\<open>index\<close> at its own position,
  whenever the equality used is reflexive and equal elements agree on \<open>P\<close>.
\<close>

lemma find_index:
  assumes "find P xs = Some x" and "\<And>y. eq y y" and "\<And>y z. eq y z \<Longrightarrow> P y = P z"
  shows "index eq xs x = Some (length (takeWhile (\<lambda>y. \<not> P y) xs)) \<and>
     xs ! length (takeWhile (\<lambda>y. \<not> P y) xs) = x \<and> P x"
  using assms(1)
proof (induction xs)
  case Nil
  then show ?case by simp
next
  case (Cons y ys)
  show ?case
  proof (cases "P y")
    case True
    with Cons.prems assms(2) show ?thesis by simp
  next
    case False
    with Cons.prems have f: "find P ys = Some x" by simp
    from Cons.IH [OF f] have px: "P x" by simp
    with False assms(3) [of y x] have "\<not> eq y x" by blast
    with Cons.IH [OF f] False show ?thesis by simp
  qed
qed

lemma position_of_less:
  "p \<in> Present.id ` set ps \<Longrightarrow> position_of p ps < length ps"
  unfolding position_of_def by (induction ps) auto

lemma position_of_id:
  "p \<in> Present.id ` set ps \<Longrightarrow> Present.id (ps ! position_of p ps) = p"
  unfolding position_of_def by (induction ps) auto

lemma position_of_first:
  "j < position_of p ps \<Longrightarrow> Present.id (ps ! j) \<noteq> p"
  unfolding position_of_def
proof (induction ps arbitrary: j)
  case Nil
  then show ?case by simp
next
  case (Cons q qs)
  then show ?case by (cases j) (auto split: if_splits)
qed

lemma find_present_absent:
  "presents s u = None \<Longrightarrow> find_present_in_list_by_id s u p = Inl TypeError"
  by (simp add: find_present_in_list_by_id_def get_presents_def)

lemma find_present_missing:
  "presents s u = Some ps \<Longrightarrow> p \<notin> Present.id ` set ps \<Longrightarrow>
     find_present_in_list_by_id s u p = Inl PresentNotFound"
proof -
  assume a: "presents s u = Some ps" and b: "p \<notin> Present.id ` set ps"
  from b have "find (\<lambda>q. Present.id q = p) ps = None"
    by (auto simp: find_None_iff)
  with a show ?thesis
    by (simp add: find_present_in_list_by_id_def get_presents_def)
qed

lemma find_present_found:
  assumes "presents s u = Some ps" and "p \<in> Present.id ` set ps"
  shows "find_present_in_list_by_id s u p = Inr (ps, ps ! position_of p ps, position_of p ps)"
proof -
  from assms(2) obtain x where x: "find (\<lambda>q. Present.id q = p) ps = Some x"
    by (cases "find (\<lambda>q. Present.id q = p) ps") (auto simp: find_None_iff)
  have "index (present_eq (lists s)) ps x = Some (position_of p ps) \<and>
        ps ! position_of p ps = x \<and> Present.id x = p"
    unfolding position_of_def
    by (rule find_index [OF x]) (simp_all add: present_eq_def)
  then have "index (present_eq (lists s)) ps x = Some (position_of p ps)"
    and "ps ! position_of p ps = x"
    by simp_all
  with assms(1) x show ?thesis
    by (simp add: find_present_in_list_by_id_def get_presents_def)
qed

section \<open>The operations on a present that is found\<close>

lemma update_present_found:
  assumes "presents s u = Some ps" and "p \<in> Present.id ` set ps"
  shows "update_present s u p d =
     (Inr (map to_present_wish_response
            (ps[position_of p ps := wish_to_present d (Present.assigned_to (ps ! position_of p ps))])),
      s\<lparr>presents := (presents s)(u \<mapsto>
            ps[position_of p ps := wish_to_present d (Present.assigned_to (ps ! position_of p ps))])\<rparr>)"
  using find_present_found [OF assms]
  by (simp add: update_present_def upsert_presents_def Let_def)

lemma delete_present_found:
  assumes "presents s u = Some ps" and "p \<in> Present.id ` set ps"
  shows "delete_present s u p =
     (Inr (map to_present_wish_response
            (take (position_of p ps) ps @ drop (Suc (position_of p ps)) ps)),
      s\<lparr>presents := (presents s)(u \<mapsto>
            take (position_of p ps) ps @ drop (Suc (position_of p ps)) ps)\<rparr>)"
  using find_present_found [OF assms]
  by (simp add: delete_present_def upsert_presents_def Let_def)

text \<open>
  An assignment or a removal that writes changes one list object; the present list it
  passes to \<^verbatim>\<open>upsert_presents\<close> is the one the dictionary held.
\<close>

lemma store_unchanged:
  "presents s u = Some ps \<Longrightarrow> s\<lparr>presents := (presents s)(u \<mapsto> ps)\<rparr> = s"
  by (simp add: map_upd_triv)

lemma assign_writes:
  assumes "presents s u = Some ps" and "p \<in> Present.id ` set ps"
    and "g \<notin> set (lists s (Present.assigned_to (ps ! position_of p ps)))"
  shows "assign_user_to_present s u p g =
     (Inr (map (to_present_gift_response
                 ((lists s)(Present.assigned_to (ps ! position_of p ps) :=
                    lists s (Present.assigned_to (ps ! position_of p ps)) @ [g]))) ps),
      s\<lparr>lists := (lists s)(Present.assigned_to (ps ! position_of p ps) :=
                    lists s (Present.assigned_to (ps ! position_of p ps)) @ [g])\<rparr>)"
  using find_present_found [OF assms(1,2)] assms(1,3)
  by (simp add: assign_user_to_present_def upsert_presents_def Let_def map_upd_triv)

lemma assign_skips:
  assumes "presents s u = Some ps" and "p \<in> Present.id ` set ps"
    and "g \<in> set (lists s (Present.assigned_to (ps ! position_of p ps)))"
  shows "assign_user_to_present s u p g = (Inr (map (to_present_gift_response (lists s)) ps), s)"
  using find_present_found [OF assms(1,2)] assms(3)
  by (simp add: assign_user_to_present_def Let_def)

lemma remove_writes:
  assumes "presents s u = Some ps" and "p \<in> Present.id ` set ps"
    and "g \<in> set (lists s (Present.assigned_to (ps ! position_of p ps)))"
  shows "remove_user_from_present s u p g =
     (Inr (map (to_present_gift_response
                 ((lists s)(Present.assigned_to (ps ! position_of p ps) :=
                    remove1 g (lists s (Present.assigned_to (ps ! position_of p ps)))))) ps),
      s\<lparr>lists := (lists s)(Present.assigned_to (ps ! position_of p ps) :=
                    remove1 g (lists s (Present.assigned_to (ps ! position_of p ps))))\<rparr>)"
  using find_present_found [OF assms(1,2)] assms(1,3)
  by (simp add: remove_user_from_present_def upsert_presents_def Let_def map_upd_triv)

lemma remove_skips:
  assumes "presents s u = Some ps" and "p \<in> Present.id ` set ps"
    and "g \<notin> set (lists s (Present.assigned_to (ps ! position_of p ps)))"
  shows "remove_user_from_present s u p g = (Inr (map (to_present_gift_response (lists s)) ps), s)"
  using find_present_found [OF assms(1,2)] assms(3)
  by (simp add: remove_user_from_present_def Let_def)

text \<open>The position of an id depends on the ids of the list only.\<close>

lemma position_of_ids:
  "map Present.id ps' = map Present.id ps \<Longrightarrow> position_of p ps' = position_of p ps"
proof (induction ps arbitrary: ps')
  case Nil
  then show ?case by (simp add: position_of_def)
next
  case (Cons q qs)
  then obtain q' qs' where ps': "ps' = q' # qs'" by (cases ps') auto
  with Cons.prems have "Present.id q' = Present.id q" and "map Present.id qs' = map Present.id qs"
    by simp_all
  with Cons.IH [of qs'] ps' show ?case by (simp add: position_of_def)
qed

text \<open>
  \<^verbatim>\<open>create_present\<close> for an owner with a user record and a list: the counter's value is
  the new id, a new empty list object the new \<open>assigned_to\<close>.
\<close>

lemma create_present_found:
  assumes "users s u = Some usr" and "presents s u = Some ps"
  shows "create_present s u c =
     (Inr (map to_present_wish_response
            (ps @ [create_to_present c (User.present_id usr) (next_ref s)])),
      s\<lparr>users := (users s)(u \<mapsto> usr\<lparr>User.present_id := User.present_id usr + 1\<rparr>,
                               User.name usr \<mapsto> usr\<lparr>User.present_id := User.present_id usr + 1\<rparr>),
        presents := (presents s)(u \<mapsto> ps @ [create_to_present c (User.present_id usr) (next_ref s)]),
        lists := (lists s)(next_ref s := []),
        next_ref := Suc (next_ref s)\<rparr>)"
  using assms
  by (simp add: create_present_def get_user_def get_presents_def upsert_user_def
      upsert_presents_def Let_def)

section \<open>Absent users and lists\<close>

text \<open>
  With no list under the key, \<^verbatim>\<open>find_present_in_list_by_id\<close> hands \<^verbatim>\<open>None\<close> to
  \<^verbatim>\<open>filter\<close>, and the four callers stop with the runtime's \<open>TypeError\<close>, the store
  untouched.
\<close>

lemma absent_list_raises:
  assumes "presents s u = None"
  shows "update_present s u p d = (Inl TypeError, s)"
    and "delete_present s u p = (Inl TypeError, s)"
    and "assign_user_to_present s u p g = (Inl TypeError, s)"
    and "remove_user_from_present s u p g = (Inl TypeError, s)"
  using find_present_absent [OF assms]
  by (simp_all add: update_present_def delete_present_def assign_user_to_present_def
      remove_user_from_present_def)

text \<open>
  C1. The four operations that locate a present are claimed to fail with \<open>UserNotFound\<close>
  when the owner's list is absent. In the registry \<open>store0\<close>, which has no list for
  \<^verbatim>\<open>carol\<close>, each of them raises \<open>TypeError\<close> instead, while the read
  \<^verbatim>\<open>get_user_present_wish_list\<close> tests for \<^verbatim>\<open>None\<close> and does raise \<open>UserNotFound\<close>.
\<close>

theorem C1_absent_list_raises_TypeError:
  "presents store0 ''carol'' = None \<and>
   update_present store0 ''carol'' 1 novel = (Inl TypeError, store0) \<and>
   delete_present store0 ''carol'' 1 = (Inl TypeError, store0) \<and>
   assign_user_to_present store0 ''carol'' 1 ''bob'' = (Inl TypeError, store0) \<and>
   remove_user_from_present store0 ''carol'' 1 ''bob'' = (Inl TypeError, store0) \<and>
   get_user_present_wish_list store0 ''carol'' = Inl UserNotFound"
proof -
  have n: "presents store0 ''carol'' = None" by (simp add: store0_def)
  show ?thesis
    using n absent_list_raises [OF n]
    by (simp add: get_user_present_wish_list_def get_presents_def)
qed

text \<open>
  C2. \<^verbatim>\<open>create_present\<close> is claimed to fail with \<open>UserNotFound\<close> for an owner with no
  user record. It reads \<^verbatim>\<open>present_id\<close> of the \<^verbatim>\<open>None\<close> that \<^verbatim>\<open>get_user\<close> returned
  and stops with \<open>AttributeError\<close>; \<^verbatim>\<open>get_user_data\<close> on the same name tests for
  \<^verbatim>\<open>None\<close> and raises \<open>UserNotFound\<close>.
\<close>

theorem C2_create_present_absent_user_raises_AttributeError:
  "users store0 ''carol'' = None \<and>
   create_present store0 ''carol'' socks = (Inl AttributeError, store0) \<and>
   get_user_data store0 ''carol'' = Inl UserNotFound"
  by (simp add: store0_def create_present_def get_user_def get_user_data_def)

text \<open>
  The two 404 errors are raised before any write: \<^verbatim>\<open>create_present\<close> raises neither of
  them, and the four operations that locate a present leave the store as it was whenever
  they raise.
\<close>

lemma not_found_leaves_store:
  assumes "e = UserNotFound \<or> e = PresentNotFound"
  shows "create_present s u c \<noteq> (Inl e, s')"
    and "update_present s u p d = (Inl e, s') \<Longrightarrow> s' = s"
    and "delete_present s u p = (Inl e, s') \<Longrightarrow> s' = s"
    and "assign_user_to_present s u p g = (Inl e, s') \<Longrightarrow> s' = s"
    and "remove_user_from_present s u p g = (Inl e, s') \<Longrightarrow> s' = s"
proof -
  from assms show "create_present s u c \<noteq> (Inl e, s')"
    by (auto simp: create_present_def Let_def split: option.splits)
  show "update_present s u p d = (Inl e, s') \<Longrightarrow> s' = s"
    by (auto simp: update_present_def Let_def split: sum.splits)
  show "delete_present s u p = (Inl e, s') \<Longrightarrow> s' = s"
    by (auto simp: delete_present_def Let_def split: sum.splits)
  show "assign_user_to_present s u p g = (Inl e, s') \<Longrightarrow> s' = s"
    by (auto simp: assign_user_to_present_def Let_def split: sum.splits if_splits)
  show "remove_user_from_present s u p g = (Inl e, s') \<Longrightarrow> s' = s"
    by (auto simp: remove_user_from_present_def Let_def split: sum.splits if_splits)
qed

text \<open>
  C9. No operation is claimed to leave the store with only one of its writes applied.
  For an owner with a user record and no list, \<^verbatim>\<open>create_present\<close> persists the
  incremented counter with \<^verbatim>\<open>upsert_user\<close>, then fails on \<^verbatim>\<open>presents.append\<close> with
  \<open>AttributeError\<close>: the counter has moved from 3 to 4 and no present was stored.
\<close>

theorem C9_create_present_partial_write:
  "users store_no_list ''alice'' = Some alice \<and>
   presents store_no_list ''alice'' = None \<and>
   create_present store_no_list ''alice'' socks =
     (Inl AttributeError,
      store_no_list\<lparr>users := [''alice'' \<mapsto> alice\<lparr>User.present_id := 4\<rparr>]\<rparr>) \<and>
   snd (create_present store_no_list ''alice'' socks) \<noteq> store_no_list"
proof -
  have c: "create_present store_no_list ''alice'' socks =
     (Inl AttributeError,
      store_no_list\<lparr>users := [''alice'' \<mapsto> alice\<lparr>User.present_id := 4\<rparr>]\<rparr>)"
    by (simp add: store_no_list_def create_present_def get_user_def get_presents_def
        upsert_user_def alice_def Let_def)
  have "users (store_no_list\<lparr>users := [''alice'' \<mapsto> alice\<lparr>User.present_id := 4\<rparr>]\<rparr>) ''alice''
        \<noteq> users store_no_list ''alice''"
    by (simp add: store_no_list_def alice_def)
  then have d: "store_no_list\<lparr>users := [''alice'' \<mapsto> alice\<lparr>User.present_id := 4\<rparr>]\<rparr> \<noteq> store_no_list"
    by metis
  show ?thesis using c d by (simp add: store_no_list_def)
qed

section \<open>Updating a present\<close>

text \<open>
  C3. After \<^verbatim>\<open>update_present(u, p, d)\<close> the present at the position of \<open>p\<close> is claimed
  to have id \<open>p\<close> still. In \<open>store0\<close> the present with id 1 is first in alice's list;
  updating it with the payload \<open>novel\<close>, whose id is 7, leaves a present with id 7 there.
\<close>

theorem C3_update_present_overwrites_id:
  "presents store0 ''alice'' = Some [book, bike] \<and>
   position_of 1 [book, bike] = 0 \<and>
   presents (snd (update_present store0 ''alice'' 1 novel)) ''alice''
     = Some [wish_to_present novel 0, bike] \<and>
   Present.id (wish_to_present novel 0) \<noteq> 1"
proof -
  have a: "presents store0 ''alice'' = Some [book, bike]" by (simp add: store0_def)
  have b: "(1::int) \<in> Present.id ` set [book, bike]" by (simp add: book_def)
  have c: "position_of 1 [book, bike] = 0" by (simp add: position_of_def book_def)
  show ?thesis
    using a c update_present_found [OF a b, of novel]
    by (simp add: book_def wish_to_present_def novel_def)
qed

text \<open>
  C3, as the code has it. When the owner's list holds a present with id \<open>p\<close>,
  \<^verbatim>\<open>update_present\<close> puts at its position the present built from the payload by
  \<^verbatim>\<open>PresentWishData.to_present\<close>: all other positions are as before and the id stored
  there is the payload's id, so it is still \<open>p\<close> exactly when the payload carries \<open>p\<close>.
\<close>

theorem C3_update_present_stores_payload_id:
  assumes "presents s u = Some ps" and "p \<in> Present.id ` set ps"
  shows "presents (snd (update_present s u p d)) u =
           Some (ps[position_of p ps :=
                      wish_to_present d (Present.assigned_to (ps ! position_of p ps))]) \<and>
         position_of p ps < length ps \<and>
         Present.id (ps ! position_of p ps) = p \<and>
         Present.id ((ps[position_of p ps :=
                      wish_to_present d (Present.assigned_to (ps ! position_of p ps))])
                     ! position_of p ps) = PresentWishData.id d"
  using update_present_found [OF assms, of d] position_of_less [OF assms(2)]
    position_of_id [OF assms(2)]
  by (simp add: wish_to_present_def)

theorem C3_update_present_stores_payload_id_witness:
  "presents store0 ''alice'' = Some [book, bike] \<and>
   (1::int) \<in> Present.id ` set [book, bike] \<and>
   presents (snd (update_present store0 ''alice'' 1 novel)) ''alice'' =
     Some ([book, bike][position_of 1 [book, bike] :=
             wish_to_present novel (Present.assigned_to ([book, bike] ! position_of 1 [book, bike]))]) \<and>
   Present.id (([book, bike][position_of 1 [book, bike] :=
             wish_to_present novel (Present.assigned_to ([book, bike] ! position_of 1 [book, bike]))])
           ! position_of 1 [book, bike]) = 7"
proof -
  have a: "presents store0 ''alice'' = Some [book, bike]" by (simp add: store0_def)
  have b: "(1::int) \<in> Present.id ` set [book, bike]" by (simp add: book_def)
  have c: "PresentWishData.id novel = 7" by (simp add: novel_def)
  show ?thesis
    using a b c C3_update_present_stores_payload_id [OF a b, of novel] by simp
qed

text \<open>In a list with pairwise distinct ids a present is determined by its id.\<close>

lemma unique_by_id:
  assumes "distinct (map Present.id ps)" and "P \<in> set ps" and "Q \<in> set ps"
    and "Present.id Q = Present.id P"
  shows "Q = P"
  using assms by (meson distinct_map inj_onD)

text \<open>
  C4. After \<^verbatim>\<open>update_present(u, P.id, d)\<close> the stored present with the id of \<open>P\<close> is
  claimed to have the \<open>assigned_to\<close> of \<open>P\<close>, for every payload \<open>d\<close>, the update replacing
  title, description, link, price and favourite only. In \<open>store0\<close>, updating the present
  \<open>book\<close>, whose id is 1 and whose \<open>assigned_to\<close> holds bob, with the payload \<open>novel\<close>
  replaces the id too: the list then holds a present with id 7 and one with id 2, and no
  present with id 1.
\<close>

theorem C4_update_present_replaces_id:
  "presents store0 ''alice'' = Some [book, bike] \<and> book \<in> set [book, bike] \<and>
   lists store0 (Present.assigned_to book) = [''bob''] \<and>
   presents (snd (update_present store0 ''alice'' (Present.id book) novel)) ''alice''
     = Some [wish_to_present novel (Present.assigned_to book), bike] \<and>
   Present.id (wish_to_present novel (Present.assigned_to book)) \<noteq> Present.id book \<and>
   Present.id bike \<noteq> Present.id book"
proof -
  have a: "presents store0 ''alice'' = Some [book, bike]" by (simp add: store0_def)
  have b: "Present.id book \<in> Present.id ` set [book, bike]" by simp
  have c: "position_of (Present.id book) [book, bike] = 0" by (simp add: position_of_def)
  have d: "lists store0 (Present.assigned_to book) = [''bob'']"
    by (simp add: store0_def book_def)
  have e: "Present.id (wish_to_present novel (Present.assigned_to book)) \<noteq> Present.id book"
    by (simp add: wish_to_present_def novel_def book_def)
  have f: "Present.id bike \<noteq> Present.id book" by (simp add: book_def bike_def)
  have g: "presents (snd (update_present store0 ''alice'' (Present.id book) novel)) ''alice''
     = Some [wish_to_present novel (Present.assigned_to book), bike]"
    using update_present_found [OF a b, of novel] c by simp
  from a d g e f show ?thesis by simp
qed

text \<open>
  C4, as the code has it. For a present \<open>P\<close> of the owner's list, with any \<open>assigned_to\<close>,
  and any payload \<open>d\<close>, \<^verbatim>\<open>update_present(u, P.id, d)\<close> succeeds. It changes no list object,
  and the stored list has at every position the \<open>assigned_to\<close> it had before, so the gift
  list read afterwards shows the assignments shown before. The present at the position of
  the first present with the id of \<open>P\<close> takes id, title, description, link, price and
  favourite from \<open>d\<close>; every other position keeps its present. Where ids are unique in the
  list, every stored present with the id of \<open>P\<close> has the \<open>assigned_to\<close> of \<open>P\<close>, and there
  is such a present when \<open>d\<close> carries that id.
\<close>

theorem C4_update_present_keeps_assigned_to:
  assumes "presents s u = Some ps" and "P \<in> set ps"
  shows "\<exists>views s' ps'.
           update_present s u (Present.id P) d = (Inr views, s') \<and>
           presents s' u = Some ps' \<and>
           lists s' = lists s \<and>
           length ps' = length ps \<and>
           map Present.assigned_to ps' = map Present.assigned_to ps \<and>
           get_user_present_gift_list s' u = Inr (map (to_present_gift_response (lists s')) ps') \<and>
           map PresentGiftData.assigned_to (map (to_present_gift_response (lists s')) ps')
             = map PresentGiftData.assigned_to (map (to_present_gift_response (lists s)) ps) \<and>
           to_present_wish_response (ps' ! position_of (Present.id P) ps) = d \<and>
           (\<forall>j. j \<noteq> position_of (Present.id P) ps \<longrightarrow> ps' ! j = ps ! j) \<and>
           (distinct (map Present.id ps) \<longrightarrow>
              (\<forall>Q \<in> set ps'. Present.id Q = Present.id P \<longrightarrow>
                 Present.assigned_to Q = Present.assigned_to P)) \<and>
           (PresentWishData.id d = Present.id P \<longrightarrow>
              (\<exists>Q \<in> set ps'. Present.id Q = Present.id P))"
proof -
  let ?p = "Present.id P"
  let ?i = "position_of ?p ps"
  let ?new = "wish_to_present d (Present.assigned_to (ps ! ?i))"
  let ?ps' = "ps[?i := ?new]"
  let ?s' = "s\<lparr>presents := (presents s)(u \<mapsto> ?ps')\<rparr>"
  from assms(2) have mem: "?p \<in> Present.id ` set ps" by blast
  have less: "?i < length ps" by (rule position_of_less [OF mem])
  have idi: "Present.id (ps ! ?i) = ?p" by (rule position_of_id [OF mem])
  have upd: "update_present s u ?p d = (Inr (map to_present_wish_response ?ps'), ?s')"
    by (rule update_present_found [OF assms(1) mem])
  have stored: "presents ?s' u = Some ?ps'" by simp
  have heap: "lists ?s' = lists s" by simp
  have len: "length ?ps' = length ps" by simp
  have anew: "Present.assigned_to ?new = Present.assigned_to (ps ! ?i)"
    by (simp add: wish_to_present_def)
  have same: "map Present.assigned_to ?ps' = map Present.assigned_to ps"
    using less anew by (simp add: map_update list_update_same_conv)
  have gift: "get_user_present_gift_list ?s' u
      = Inr (map (to_present_gift_response (lists ?s')) ?ps')"
    by (simp add: get_user_present_gift_list_def get_presents_def)
  have views: "map PresentGiftData.assigned_to (map (to_present_gift_response h) xs)
          = map h (map Present.assigned_to xs)" for h xs
    by (simp add: to_present_gift_response_def)
  have shown: "map PresentGiftData.assigned_to (map (to_present_gift_response (lists ?s')) ?ps')
             = map PresentGiftData.assigned_to (map (to_present_gift_response (lists s)) ps)"
    by (simp only: views heap same)
  have payload: "to_present_wish_response (?ps' ! ?i) = d"
    using less by (simp add: to_present_wish_response_def wish_to_present_def)
  have others: "\<forall>j. j \<noteq> ?i \<longrightarrow> ?ps' ! j = ps ! j" by simp
  have uniq: "\<forall>Q \<in> set ?ps'. Present.id Q = ?p \<longrightarrow>
                 Present.assigned_to Q = Present.assigned_to P"
    if d: "distinct (map Present.id ps)"
  proof (intro ballI impI)
    fix Q assume q: "Q \<in> set ?ps'" and qid: "Present.id Q = ?p"
    have at: "ps ! ?i = P"
      using unique_by_id [OF d assms(2) nth_mem [OF less] idi] .
    from q have "Q = ?new \<or> Q \<in> set ps"
      using set_update_subset_insert [of ps ?i ?new] by auto
    then show "Present.assigned_to Q = Present.assigned_to P"
    proof
      assume "Q = ?new"
      with anew at show ?thesis by simp
    next
      assume "Q \<in> set ps"
      from unique_by_id [OF d assms(2) this qid] show ?thesis by simp
    qed
  qed
  have ex: "\<exists>Q \<in> set ?ps'. Present.id Q = ?p" if e: "PresentWishData.id d = ?p"
  proof -
    have "?new \<in> set ?ps'" using less by (simp add: set_update_memI)
    moreover have "Present.id ?new = ?p" using e by (simp add: wish_to_present_def)
    ultimately show ?thesis by blast
  qed
  from uniq have uniq': "distinct (map Present.id ps) \<longrightarrow>
      (\<forall>Q \<in> set ?ps'. Present.id Q = ?p \<longrightarrow> Present.assigned_to Q = Present.assigned_to P)"
    by blast
  from ex have ex': "PresentWishData.id d = ?p \<longrightarrow> (\<exists>Q \<in> set ?ps'. Present.id Q = ?p)"
    by blast
  from upd stored heap len same gift shown payload others uniq' ex'
  show ?thesis
    by (intro exI [of _ "map to_present_wish_response ?ps'"] exI [of _ ?s'] exI [of _ ?ps'] conjI)
qed

theorem C4_update_present_keeps_assigned_to_witness:
  "presents store0 ''alice'' = Some [book, bike] \<and> book \<in> set [book, bike] \<and>
   distinct (map Present.id [book, bike]) \<and>
   PresentWishData.id retitled = Present.id book \<and>
   lists store0 (Present.assigned_to book) = [''bob''] \<and>
   (\<exists>views s' ps'.
      update_present store0 ''alice'' (Present.id book) retitled = (Inr views, s') \<and>
      presents s' ''alice'' = Some ps' \<and>
      lists s' = lists store0 \<and>
      map Present.assigned_to ps' = map Present.assigned_to [book, bike] \<and>
      get_user_present_gift_list s' ''alice'' = Inr (map (to_present_gift_response (lists s')) ps') \<and>
      to_present_wish_response (ps' ! position_of (Present.id book) [book, bike]) = retitled \<and>
      (\<exists>Q \<in> set ps'. Present.id Q = Present.id book \<and> lists s' (Present.assigned_to Q) = [''bob'']))"
proof -
  have a: "presents store0 ''alice'' = Some [book, bike]" by (simp add: store0_def)
  have b: "book \<in> set [book, bike]" by simp
  have c: "distinct (map Present.id [book, bike])" by (simp add: book_def bike_def)
  have e: "PresentWishData.id retitled = Present.id book" by (simp add: retitled_def book_def)
  have f: "lists store0 (Present.assigned_to book) = [''bob'']"
    by (simp add: store0_def book_def)
  from C4_update_present_keeps_assigned_to [OF a b, of retitled]
  obtain views s' ps' where
    h1: "update_present store0 ''alice'' (Present.id book) retitled = (Inr views, s')" and
    h2: "presents s' ''alice'' = Some ps'" and
    h0: "lists s' = lists store0" and
    h3: "map Present.assigned_to ps' = map Present.assigned_to [book, bike]" and
    h4: "get_user_present_gift_list s' ''alice''
           = Inr (map (to_present_gift_response (lists s')) ps')" and
    h8: "to_present_wish_response (ps' ! position_of (Present.id book) [book, bike]) = retitled" and
    h5: "distinct (map Present.id [book, bike]) \<longrightarrow>
          (\<forall>Q \<in> set ps'. Present.id Q = Present.id book \<longrightarrow>
             Present.assigned_to Q = Present.assigned_to book)" and
    h6: "PresentWishData.id retitled = Present.id book \<longrightarrow>
          (\<exists>Q \<in> set ps'. Present.id Q = Present.id book)"
    by blast
  from h6 e obtain Q where q: "Q \<in> set ps'" "Present.id Q = Present.id book" by blast
  with h5 c have "Present.assigned_to Q = Present.assigned_to book" by blast
  with f h0 have "lists s' (Present.assigned_to Q) = [''bob'']" by simp
  with q have h7: "\<exists>Q \<in> set ps'. Present.id Q = Present.id book \<and>
      lists s' (Present.assigned_to Q) = [''bob'']"
    by blast
  have "\<exists>views s' ps'.
      update_present store0 ''alice'' (Present.id book) retitled = (Inr views, s') \<and>
      presents s' ''alice'' = Some ps' \<and>
      lists s' = lists store0 \<and>
      map Present.assigned_to ps' = map Present.assigned_to [book, bike] \<and>
      get_user_present_gift_list s' ''alice'' = Inr (map (to_present_gift_response (lists s')) ps') \<and>
      to_present_wish_response (ps' ! position_of (Present.id book) [book, bike]) = retitled \<and>
      (\<exists>Q \<in> set ps'. Present.id Q = Present.id book \<and> lists s' (Present.assigned_to Q) = [''bob''])"
    using h1 h2 h0 h3 h4 h8 h7 by (intro exI conjI)
  with a b c e f show ?thesis by (intro conjI)
qed

section \<open>Assigning and removing gifters\<close>

text \<open>
  Both operations succeed on a present that is found and leave a store that differs from
  the old one at most in the contents of one list object, the one that the \<open>assigned_to\<close>
  of the present found refers to, whether they write or skip the write.
\<close>

lemma assign_outcome:
  assumes "presents s u = Some ps" and "p \<in> Present.id ` set ps"
  shows "\<exists>a. assign_user_to_present s u p g =
     (Inr (map (to_present_gift_response
                 ((lists s)(Present.assigned_to (ps ! position_of p ps) := a))) ps),
      s\<lparr>lists := (lists s)(Present.assigned_to (ps ! position_of p ps) := a)\<rparr>)"
proof (cases "g \<in> set (lists s (Present.assigned_to (ps ! position_of p ps)))")
  case True
  have "(lists s)(Present.assigned_to (ps ! position_of p ps) :=
           lists s (Present.assigned_to (ps ! position_of p ps))) = lists s"
    by simp
  moreover from this have "s\<lparr>lists := (lists s)(Present.assigned_to (ps ! position_of p ps) :=
           lists s (Present.assigned_to (ps ! position_of p ps)))\<rparr> = s"
    by simp
  ultimately show ?thesis
    using assign_skips [OF assms True] by metis
next
  case False
  from assign_writes [OF assms False] show ?thesis by blast
qed

lemma remove_outcome:
  assumes "presents s u = Some ps" and "p \<in> Present.id ` set ps"
  shows "\<exists>a. remove_user_from_present s u p g =
     (Inr (map (to_present_gift_response
                 ((lists s)(Present.assigned_to (ps ! position_of p ps) := a))) ps),
      s\<lparr>lists := (lists s)(Present.assigned_to (ps ! position_of p ps) := a)\<rparr>)"
proof (cases "g \<in> set (lists s (Present.assigned_to (ps ! position_of p ps)))")
  case True
  from remove_writes [OF assms True] show ?thesis by blast
next
  case False
  have "(lists s)(Present.assigned_to (ps ! position_of p ps) :=
           lists s (Present.assigned_to (ps ! position_of p ps))) = lists s"
    by simp
  moreover from this have "s\<lparr>lists := (lists s)(Present.assigned_to (ps ! position_of p ps) :=
           lists s (Present.assigned_to (ps ! position_of p ps)))\<rparr> = s"
    by simp
  ultimately show ?thesis
    using remove_skips [OF assms False] by metis
qed

lemma gift_view_elsewhere:
  "Present.assigned_to q \<noteq> r \<Longrightarrow>
     to_present_gift_response (h(r := a)) q = to_present_gift_response h q"
  by (simp add: to_present_gift_response_def)

text \<open>
  C10. Assigning and removing a gifter are claimed to change nothing but the \<open>assigned_to\<close>
  of the present with id \<open>p\<close>, every other present of the list staying as it was. In
  \<open>store_shared\<close> the two presents of alice's list hold one list object, as two presents
  loaded from one YAML node do. Assigning carol to the present with id 1 appends to that
  object, and the present with id 2 shows carol too.
\<close>

theorem C10_assign_changes_shared_list:
  "presents store_shared ''alice'' = Some [book, bike_shared] \<and>
   position_of 1 [book, bike_shared] = 0 \<and>
   Present.id bike_shared = 2 \<and>
   get_user_present_gift_list store_shared ''alice''
     = Inr [to_present_gift_response (lists store_shared) book,
            to_present_gift_response (lists store_shared) bike_shared] \<and>
   PresentGiftData.assigned_to (to_present_gift_response (lists store_shared) bike_shared)
     = [''bob''] \<and>
   fst (assign_user_to_present store_shared ''alice'' 1 ''carol'')
     = Inr [to_present_gift_response
              (lists (snd (assign_user_to_present store_shared ''alice'' 1 ''carol''))) book,
            to_present_gift_response
              (lists (snd (assign_user_to_present store_shared ''alice'' 1 ''carol''))) bike_shared] \<and>
   PresentGiftData.assigned_to
     (to_present_gift_response
        (lists (snd (assign_user_to_present store_shared ''alice'' 1 ''carol''))) bike_shared)
     = [''bob'', ''carol'']"
proof -
  have a: "presents store_shared ''alice'' = Some [book, bike_shared]"
    by (simp add: store_shared_def)
  have b: "(1::int) \<in> Present.id ` set [book, bike_shared]" by (simp add: book_def)
  have c: "position_of 1 [book, bike_shared] = 0" by (simp add: position_of_def book_def)
  have d: "Present.id bike_shared = 2" by (simp add: bike_shared_def bike_def)
  have e: "''carol'' \<notin> set (lists store_shared
             (Present.assigned_to ([book, bike_shared] ! position_of 1 [book, bike_shared])))"
    unfolding c by (simp add: store_shared_def book_def)
  have f: "get_user_present_gift_list store_shared ''alice''
     = Inr [to_present_gift_response (lists store_shared) book,
            to_present_gift_response (lists store_shared) bike_shared]"
    using a by (simp add: get_user_present_gift_list_def get_presents_def)
  have g: "PresentGiftData.assigned_to (to_present_gift_response (lists store_shared) bike_shared)
     = [''bob'']"
    by (simp add: to_present_gift_response_def store_shared_def bike_shared_def)
  note w = assign_writes [OF a b e, unfolded c]
  have h: "fst (assign_user_to_present store_shared ''alice'' 1 ''carol'')
     = Inr [to_present_gift_response
              (lists (snd (assign_user_to_present store_shared ''alice'' 1 ''carol''))) book,
            to_present_gift_response
              (lists (snd (assign_user_to_present store_shared ''alice'' 1 ''carol''))) bike_shared]"
    by (simp add: w)
  have i: "PresentGiftData.assigned_to
     (to_present_gift_response
        (lists (snd (assign_user_to_present store_shared ''alice'' 1 ''carol''))) bike_shared)
     = [''bob'', ''carol'']"
  proof -
    have "lists (snd (assign_user_to_present store_shared ''alice'' 1 ''carol'')) 0
        = lists store_shared 0 @ [''carol'']"
      by (simp add: w book_def)
    then have "lists (snd (assign_user_to_present store_shared ''alice'' 1 ''carol'')) 0
        = [''bob'', ''carol'']"
      by (simp add: store_shared_def)
    then show ?thesis
      by (simp add: to_present_gift_response_def bike_shared_def)
  qed
  from a c d f g h i show ?thesis by (intro conjI)
qed

text \<open>
  C10, as the code has it. For an owner \<open>u\<close> whose list holds a present with id \<open>p\<close>, both
  \<^verbatim>\<open>assign_user_to_present\<close> and \<^verbatim>\<open>remove_user_from_present\<close> succeed and change at most
  the contents of the list object that the \<open>assigned_to\<close> of the first present with id \<open>p\<close>
  refers to. The user records with their id counters are as before; so are the present
  lists of all owners, with their order, their length and every field of every present; so
  is every other list object. Every present of the list of \<open>u\<close> that holds another list
  object is returned with the \<open>assigned_to\<close> it had before the call.
\<close>

theorem C10_assignment_frame:
  assumes "presents s u = Some ps" and "p \<in> Present.id ` set ps"
  shows "\<exists>i r va sa vr sr.
      i = position_of p ps \<and> i < length ps \<and> Present.id (ps ! i) = p \<and>
      r = Present.assigned_to (ps ! i) \<and>
      assign_user_to_present s u p g = (Inr va, sa) \<and>
      remove_user_from_present s u p g = (Inr vr, sr) \<and>
      users sa = users s \<and> users sr = users s \<and>
      presents sa = presents s \<and> presents sr = presents s \<and>
      next_ref sa = next_ref s \<and> next_ref sr = next_ref s \<and>
      (\<forall>r'. r' \<noteq> r \<longrightarrow> lists sa r' = lists s r' \<and> lists sr r' = lists s r') \<and>
      length va = length ps \<and> length vr = length ps \<and>
      (\<forall>j < length ps. Present.assigned_to (ps ! j) \<noteq> r \<longrightarrow>
         va ! j = to_present_gift_response (lists s) (ps ! j) \<and>
         vr ! j = to_present_gift_response (lists s) (ps ! j))"
proof -
  let ?i = "position_of p ps"
  let ?r = "Present.assigned_to (ps ! ?i)"
  have less: "?i < length ps" by (rule position_of_less [OF assms(2)])
  have idi: "Present.id (ps ! ?i) = p" by (rule position_of_id [OF assms(2)])
  from assign_outcome [OF assms, of g] obtain a where
    A: "assign_user_to_present s u p g =
       (Inr (map (to_present_gift_response ((lists s)(?r := a))) ps),
        s\<lparr>lists := (lists s)(?r := a)\<rparr>)"
    by blast
  from remove_outcome [OF assms, of g] obtain b where
    R: "remove_user_from_present s u p g =
       (Inr (map (to_present_gift_response ((lists s)(?r := b))) ps),
        s\<lparr>lists := (lists s)(?r := b)\<rparr>)"
    by blast
  show ?thesis
    apply (rule exI [of _ ?i])
    apply (rule exI [of _ ?r])
    apply (rule exI [of _ "map (to_present_gift_response ((lists s)(?r := a))) ps"])
    apply (rule exI [of _ "s\<lparr>lists := (lists s)(?r := a)\<rparr>"])
    apply (rule exI [of _ "map (to_present_gift_response ((lists s)(?r := b))) ps"])
    apply (rule exI [of _ "s\<lparr>lists := (lists s)(?r := b)\<rparr>"])
    using less idi A R apply (simp add: gift_view_elsewhere)
    done
qed

theorem C10_assignment_frame_witness:
  "presents store0 ''alice'' = Some [book, bike] \<and>
   (2::int) \<in> Present.id ` set [book, bike] \<and>
   (\<exists>i r va sa vr sr.
      i = position_of 2 [book, bike] \<and> i < length [book, bike] \<and>
      Present.id ([book, bike] ! i) = 2 \<and>
      r = Present.assigned_to ([book, bike] ! i) \<and>
      assign_user_to_present store0 ''alice'' 2 ''carol'' = (Inr va, sa) \<and>
      remove_user_from_present store0 ''alice'' 2 ''carol'' = (Inr vr, sr) \<and>
      users sa = users store0 \<and> users sr = users store0 \<and>
      presents sa = presents store0 \<and> presents sr = presents store0 \<and>
      next_ref sa = next_ref store0 \<and> next_ref sr = next_ref store0 \<and>
      (\<forall>r'. r' \<noteq> r \<longrightarrow> lists sa r' = lists store0 r' \<and> lists sr r' = lists store0 r') \<and>
      length va = length [book, bike] \<and> length vr = length [book, bike] \<and>
      (\<forall>j < length [book, bike]. Present.assigned_to ([book, bike] ! j) \<noteq> r \<longrightarrow>
         va ! j = to_present_gift_response (lists store0) ([book, bike] ! j) \<and>
         vr ! j = to_present_gift_response (lists store0) ([book, bike] ! j)))"
proof -
  have a: "presents store0 ''alice'' = Some [book, bike]" by (simp add: store0_def)
  have b: "(2::int) \<in> Present.id ` set [book, bike]" by (simp add: bike_def)
  from a b C10_assignment_frame [OF a b, of "''carol''"] show ?thesis by (intro conjI)
qed






section \<open>Wish views\<close>

text \<open>
  What the wisher's operations return and store is the same for two stores that differ in
  gifter assignments only: the position found by id, the errors and the lists of wish views
  do not depend on any \<open>assigned_to\<close>.
\<close>

lemma same_but_assigned_iff:
  "same_but_assigned p q \<longleftrightarrow> to_present_wish_response p = to_present_wish_response q"
  by (auto simp: same_but_assigned_def to_present_wish_response_def)

lemma all_same_but_assigned_iff:
  "list_all2 same_but_assigned ps qs \<longleftrightarrow>
     map to_present_wish_response ps = map to_present_wish_response qs"
proof -
  have "map to_present_wish_response ps = map to_present_wish_response qs \<longleftrightarrow>
        list_all2 (=) (map to_present_wish_response ps) (map to_present_wish_response qs)"
    by (simp add: list.rel_eq)
  also have "\<dots> \<longleftrightarrow> list_all2 (\<lambda>p q. to_present_wish_response p = to_present_wish_response q) ps qs"
    by (simp add: list.rel_map)
  also have "\<dots> \<longleftrightarrow> list_all2 same_but_assigned ps qs"
    by (simp add: same_but_assigned_iff [abs_def])
  finally show ?thesis by simp
qed

lemma wish_ids:
  "map to_present_wish_response ps = map to_present_wish_response qs \<Longrightarrow>
     map Present.id ps = map Present.id qs"
proof -
  assume e: "map to_present_wish_response ps = map to_present_wish_response qs"
  have "map Present.id xs = map PresentWishData.id (map to_present_wish_response xs)" for xs
    by (simp add: to_present_wish_response_def)
  with e show ?thesis by metis
qed

lemma wish_equivalentD:
  assumes "wish_equivalent s t"
  shows "users s = users t"
    and "presents s u = None \<longleftrightarrow> presents t u = None"
    and "presents s u = Some ps \<Longrightarrow> presents t u = Some qs \<Longrightarrow>
           map to_present_wish_response ps = map to_present_wish_response qs"
proof -
  from assms have r: "rel_option (list_all2 same_but_assigned) (presents s u) (presents t u)"
    and us: "users s = users t"
    by (simp_all add: wish_equivalent_def)
  show "users s = users t" by (rule us)
  from r show "presents s u = None \<longleftrightarrow> presents t u = None"
    by (cases "presents s u"; cases "presents t u") simp_all
  from r show "presents s u = Some ps \<Longrightarrow> presents t u = Some qs \<Longrightarrow>
           map to_present_wish_response ps = map to_present_wish_response qs"
    by (simp add: all_same_but_assigned_iff)
qed

lemma wish_equivalent_upsert:
  assumes "wish_equivalent s t"
    and "map to_present_wish_response ps = map to_present_wish_response qs"
  shows "wish_equivalent (s\<lparr>presents := (presents s)(u \<mapsto> ps)\<rparr>)
                         (t\<lparr>presents := (presents t)(u \<mapsto> qs)\<rparr>)"
  using assms by (simp add: wish_equivalent_def all_same_but_assigned_iff)

lemma wish_equivalent_users:
  assumes "wish_equivalent s t"
  shows "wish_equivalent (s\<lparr>users := f (users s)\<rparr>) (t\<lparr>users := f (users t)\<rparr>)"
  using assms by (simp add: wish_equivalent_def)

lemma wish_of_wish_to_present:
  "to_present_wish_response (wish_to_present d a) = d"
  by (simp add: to_present_wish_response_def wish_to_present_def)

lemma find_present_equivalent:
  assumes "presents s u = Some ps" and "presents t u = Some qs"
    and "map to_present_wish_response ps = map to_present_wish_response qs"
  shows "(p \<in> Present.id ` set ps \<longleftrightarrow> p \<in> Present.id ` set qs) \<and>
         position_of p ps = position_of p qs"
proof -
  from wish_ids [OF assms(3)] have ids: "map Present.id ps = map Present.id qs" .
  then have "Present.id ` set ps = Present.id ` set qs" by (metis set_map)
  with position_of_ids [OF ids] show ?thesis by simp
qed

lemma update_present_equivalent:
  assumes "wish_equivalent s t"
  shows "fst (update_present s u p d) = fst (update_present t u p d) \<and>
         wish_equivalent (snd (update_present s u p d)) (snd (update_present t u p d))"
proof (cases "presents s u")
  case None
  with wish_equivalentD(2) [OF assms, of u] have n: "presents t u = None" by simp
  from absent_list_raises(1) [OF None] absent_list_raises(1) [OF n] assms
  show ?thesis by simp
next
  case (Some ps)
  with wish_equivalentD(2) [OF assms, of u] obtain qs where t: "presents t u = Some qs"
    by (cases "presents t u") auto
  note eq = wish_equivalentD(3) [OF assms Some t]
  note fe = find_present_equivalent [OF Some t eq, of p]
  show ?thesis
  proof (cases "p \<in> Present.id ` set ps")
    case False
    with fe have "p \<notin> Present.id ` set qs" by simp
    from find_present_missing [OF Some False] find_present_missing [OF t this] assms
    show ?thesis by (simp add: update_present_def)
  next
    case True
    with fe have q: "p \<in> Present.id ` set qs" by simp
    let ?i = "position_of p ps"
    have m: "map to_present_wish_response (ps[?i := wish_to_present d (Present.assigned_to (ps ! ?i))])
           = map to_present_wish_response (qs[?i := wish_to_present d (Present.assigned_to (qs ! ?i))])"
      using eq by (simp add: map_update wish_of_wish_to_present)
    from update_present_found [OF Some True, of d] update_present_found [OF t q, of d]
      fe m wish_equivalent_upsert [OF assms m, of u]
    show ?thesis by simp
  qed
qed

lemma delete_present_equivalent:
  assumes "wish_equivalent s t"
  shows "fst (delete_present s u p) = fst (delete_present t u p) \<and>
         wish_equivalent (snd (delete_present s u p)) (snd (delete_present t u p))"
proof (cases "presents s u")
  case None
  with wish_equivalentD(2) [OF assms, of u] have n: "presents t u = None" by simp
  from absent_list_raises(2) [OF None] absent_list_raises(2) [OF n] assms
  show ?thesis by simp
next
  case (Some ps)
  with wish_equivalentD(2) [OF assms, of u] obtain qs where t: "presents t u = Some qs"
    by (cases "presents t u") auto
  note eq = wish_equivalentD(3) [OF assms Some t]
  note fe = find_present_equivalent [OF Some t eq, of p]
  show ?thesis
  proof (cases "p \<in> Present.id ` set ps")
    case False
    with fe have "p \<notin> Present.id ` set qs" by simp
    from find_present_missing [OF Some False] find_present_missing [OF t this] assms
    show ?thesis by (simp add: delete_present_def)
  next
    case True
    with fe have q: "p \<in> Present.id ` set qs" by simp
    let ?i = "position_of p ps"
    have "take ?i (map to_present_wish_response ps) @ drop (Suc ?i) (map to_present_wish_response ps)
        = take ?i (map to_present_wish_response qs) @ drop (Suc ?i) (map to_present_wish_response qs)"
      using eq by simp
    then have m: "map to_present_wish_response (take ?i ps @ drop (Suc ?i) ps)
           = map to_present_wish_response (take ?i qs @ drop (Suc ?i) qs)"
      by (simp add: take_map drop_map)
    from delete_present_found [OF Some True] delete_present_found [OF t q]
      fe m wish_equivalent_upsert [OF assms m, of u]
    show ?thesis by simp
  qed
qed

lemma create_present_equivalent:
  assumes "wish_equivalent s t"
  shows "fst (create_present s u c) = fst (create_present t u c) \<and>
         wish_equivalent (snd (create_present s u c)) (snd (create_present t u c))"
proof (cases "users s u")
  case None
  with wish_equivalentD(1) [OF assms] have "users t u = None" by simp
  with None assms show ?thesis by (simp add: create_present_def get_user_def)
next
  case (Some usr)
  with wish_equivalentD(1) [OF assms] have ut: "users t u = Some usr" by simp
  let ?usr = "usr\<lparr>User.present_id := User.present_id usr + 1\<rparr>"
  let ?f = "\<lambda>m. m(u \<mapsto> ?usr, User.name ?usr \<mapsto> ?usr)"
  let ?s1 = "s\<lparr>users := ?f (users s)\<rparr>"
  let ?t1 = "t\<lparr>users := ?f (users t)\<rparr>"
  have e1: "wish_equivalent ?s1 ?t1" by (rule wish_equivalent_users [OF assms])
  show ?thesis
  proof (cases "presents s u")
    case None
    with wish_equivalentD(2) [OF assms, of u] have n: "presents t u = None" by simp
    from Some ut None n e1 show ?thesis
      by (simp add: create_present_def get_user_def get_presents_def upsert_user_def Let_def)
  next
    case (Some ps)
    with wish_equivalentD(2) [OF assms, of u] obtain qs where t: "presents t u = Some qs"
      by (cases "presents t u") auto
    note eq = wish_equivalentD(3) [OF assms Some t]
    let ?ps' = "ps @ [create_to_present c (User.present_id usr) (next_ref s)]"
    let ?qs' = "qs @ [create_to_present c (User.present_id usr) (next_ref t)]"
    have "to_present_wish_response (create_to_present c n r)
        = to_present_wish_response (create_to_present c n r')" for n r r'
      by (simp add: to_present_wish_response_def create_to_present_def)
    with eq have m: "map to_present_wish_response ?ps' = map to_present_wish_response ?qs'"
      by simp
    from assms m wish_equivalentD(1) [OF assms]
    have "wish_equivalent
        (s\<lparr>users := ?f (users s), presents := (presents s)(u \<mapsto> ?ps'),
           lists := (lists s)(next_ref s := []), next_ref := Suc (next_ref s)\<rparr>)
        (t\<lparr>users := ?f (users t), presents := (presents t)(u \<mapsto> ?qs'),
           lists := (lists t)(next_ref t := []), next_ref := Suc (next_ref t)\<rparr>)"
      by (simp add: wish_equivalent_def all_same_but_assigned_iff)
    with create_present_found [OF \<open>users s u = Some usr\<close> Some, of c]
      create_present_found [OF ut t, of c] m
    show ?thesis by simp
  qed
qed

lemma wish_list_equivalent:
  assumes "wish_equivalent s t"
  shows "get_user_present_wish_list s u = get_user_present_wish_list t u"
proof (cases "presents s u")
  case None
  with wish_equivalentD(2) [OF assms, of u] have "presents t u = None" by simp
  with None show ?thesis by (simp add: get_user_present_wish_list_def get_presents_def)
next
  case (Some ps)
  with wish_equivalentD(2) [OF assms, of u] obtain qs where t: "presents t u = Some qs"
    by (cases "presents t u") auto
  from wish_equivalentD(3) [OF assms Some t] Some t show ?thesis
    by (simp add: get_user_present_wish_list_def get_presents_def)
qed

text \<open>
  C6. The wish view has the fields id, title, description, link, price and favourite and
  no other (the record \<open>PresentWishData\<close>); it does not change when \<open>assigned_to\<close> of the
  present changes, and two presents that differ in \<open>assigned_to\<close> only have the same wish
  view. On two stores that differ in gifter assignments only,
  \<^verbatim>\<open>get_user_present_wish_list\<close>, \<^verbatim>\<open>create_present\<close>, \<^verbatim>\<open>update_present\<close> and
  \<^verbatim>\<open>delete_present\<close> return the same result, error or list of wish views, and leave
  stores that again differ in gifter assignments only.
\<close>

theorem C6_wish_views_hide_assignments:
  "to_present_wish_response (p\<lparr>Present.assigned_to := a\<rparr>) = to_present_wish_response p \<and>
   (same_but_assigned p q \<longrightarrow> to_present_wish_response p = to_present_wish_response q) \<and>
   (wish_equivalent s t \<longrightarrow>
      get_user_present_wish_list s u = get_user_present_wish_list t u \<and>
      fst (create_present s u c) = fst (create_present t u c) \<and>
      wish_equivalent (snd (create_present s u c)) (snd (create_present t u c)) \<and>
      fst (update_present s u i d) = fst (update_present t u i d) \<and>
      wish_equivalent (snd (update_present s u i d)) (snd (update_present t u i d)) \<and>
      fst (delete_present s u i) = fst (delete_present t u i) \<and>
      wish_equivalent (snd (delete_present s u i)) (snd (delete_present t u i)))"
proof (intro conjI impI)
  show "to_present_wish_response (p\<lparr>Present.assigned_to := a\<rparr>) = to_present_wish_response p"
    by (simp add: to_present_wish_response_def)
  show "same_but_assigned p q \<Longrightarrow> to_present_wish_response p = to_present_wish_response q"
    by (simp add: same_but_assigned_iff)
qed (simp_all add: wish_list_equivalent create_present_equivalent update_present_equivalent
       delete_present_equivalent)

theorem C6_wish_views_hide_assignments_witness:
  "same_but_assigned book (book\<lparr>Present.assigned_to := 5\<rparr>) \<and>
   wish_equivalent store0 store0_regifted \<and>
   presents store0 ''alice'' \<noteq> presents store0_regifted ''alice'' \<and>
   to_present_wish_response book = to_present_wish_response (book\<lparr>Present.assigned_to := 5\<rparr>) \<and>
   get_user_present_wish_list store0 ''alice'' = get_user_present_wish_list store0_regifted ''alice'' \<and>
   fst (create_present store0 ''alice'' socks) = fst (create_present store0_regifted ''alice'' socks) \<and>
   fst (update_present store0 ''alice'' 1 retitled) = fst (update_present store0_regifted ''alice'' 1 retitled) \<and>
   fst (delete_present store0 ''alice'' 1) = fst (delete_present store0_regifted ''alice'' 1)"
proof -
  have a: "same_but_assigned book (book\<lparr>Present.assigned_to := 5\<rparr>)"
    by (simp add: same_but_assigned_def)
  have b: "wish_equivalent store0 store0_regifted"
    by (simp add: wish_equivalent_def store0_def store0_regifted_def same_but_assigned_def)
  have c: "presents store0 ''alice'' \<noteq> presents store0_regifted ''alice''"
    by (simp add: store0_def store0_regifted_def book_def)
  note t = C6_wish_views_hide_assignments
    [where p = book and a = 5 and q = "book\<lparr>Present.assigned_to := 5\<rparr>"
       and s = store0 and t = store0_regifted and u = "''alice''" and c = socks
       and i = 1 and d = retitled]
  note v = t [THEN conjunct1, symmetric]
  note r = t [THEN conjunct2, THEN conjunct2, THEN mp, OF b]
  note r1 = r [THEN conjunct1]
  note r2 = r [THEN conjunct2, THEN conjunct1]
  note r3 = r [THEN conjunct2, THEN conjunct2, THEN conjunct2, THEN conjunct1]
  note r4 = r [THEN conjunct2, THEN conjunct2, THEN conjunct2, THEN conjunct2, THEN conjunct2,
               THEN conjunct1]
  from a b c v r1 r2 r3 r4 show ?thesis by (intro conjI)
qed

section \<open>Minting present ids\<close>

lemma create_present_step:
  assumes "users s u = Some usr" and "presents s u = Some ps"
  shows "\<exists>views s'. create_present s u c = (Inr views, s') \<and>
           PresentWishData.id (last views) = User.present_id usr \<and>
           users s' u = Some (usr\<lparr>User.present_id := User.present_id usr + 1\<rparr>) \<and>
           presents s' u = Some (ps @ [create_to_present c (User.present_id usr) (next_ref s)])"
  using create_present_found [OF assms, of c]
  by (simp add: to_present_wish_response_def create_to_present_def)

lemma call_step_create:
  assumes "users s u = Some usr" and "presents s u = Some ps"
  shows "fst (call_step s u (Create c)) = [Minted (User.present_id usr)] \<and>
         users (snd (call_step s u (Create c))) u
           = Some (usr\<lparr>User.present_id := User.present_id usr + 1\<rparr>) \<and>
         presents (snd (call_step s u (Create c))) u
           = Some (ps @ [create_to_present c (User.present_id usr) (next_ref s)])"
proof -
  from create_present_step [OF assms, of c] obtain views s' where
    "create_present s u c = (Inr views, s')"
    "PresentWishData.id (last views) = User.present_id usr"
    "users s' u = Some (usr\<lparr>User.present_id := User.present_id usr + 1\<rparr>)"
    "presents s' u = Some (ps @ [create_to_present c (User.present_id usr) (next_ref s)])"
    by blast
  then show ?thesis by (simp add: call_step_def)
qed

lemma call_step_delete:
  assumes "users s u = Some usr" and "presents s u = Some ps"
  shows "users (snd (call_step s u (Delete p))) u = Some usr \<and>
         (\<exists>ps'. presents (snd (call_step s u (Delete p))) u = Some ps' \<and> set ps' \<subseteq> set ps) \<and>
         (fst (call_step s u (Delete p)) = [] \<or>
          fst (call_step s u (Delete p)) = [Deleted p] \<and> p \<in> Present.id ` set ps)"
proof (cases "p \<in> Present.id ` set ps")
  case False
  from find_present_missing [OF assms(2) False] assms show ?thesis
    by (simp add: call_step_def delete_present_def)
next
  case True
  have "set (take (position_of p ps) ps @ drop (Suc (position_of p ps)) ps) \<subseteq> set ps"
    using set_take_subset [of "position_of p ps" ps] set_drop_subset [of "Suc (position_of p ps)" ps]
    by auto
  with delete_present_found [OF assms(2) True] assms(1) True show ?thesis
    by (simp add: call_step_def)
qed

lemma minted_append: "minted (es @ fs) = minted es @ minted fs"
  by (induction es rule: minted.induct) simp_all

lemma never_reminted_Deleted_only:
  "never_reminted ([Deleted p] @ es) = (p \<notin> set (minted es) \<and> never_reminted es)"
  by simp

lemma minted_run_calls:
  assumes "users s u = Some usr" and "presents s u = Some ps"
  shows "minted (run_calls s u cs) = map (\<lambda>k. User.present_id usr + int k) [0..<creates cs]"
  using assms
proof (induction cs arbitrary: s usr ps)
  case Nil
  then show ?case by simp
next
  case (Cons c cs)
  show ?case
  proof (cases c)
    case (Create d)
    note st = call_step_create [OF Cons.prems, of d]
    from st have u1: "users (snd (call_step s u (Create d))) u
        = Some (usr\<lparr>User.present_id := User.present_id usr + 1\<rparr>)" by simp
    from st have p1: "presents (snd (call_step s u (Create d))) u
        = Some (ps @ [create_to_present d (User.present_id usr) (next_ref s)])" by simp
    from Cons.IH [OF u1 p1] have
      "minted (run_calls (snd (call_step s u (Create d))) u cs)
         = map (\<lambda>k. User.present_id usr + 1 + int k) [0..<creates cs]" by simp
    with st Create show ?thesis
      by (simp add: minted_append map_upt_Suc add.assoc del: upt_Suc)
  next
    case (Delete p)
    note st = call_step_delete [OF Cons.prems, of p]
    from st obtain ps' where p1: "presents (snd (call_step s u (Delete p))) u = Some ps'"
      by blast
    from st have u1: "users (snd (call_step s u (Delete p))) u = Some usr" by simp
    from st have "minted (fst (call_step s u (Delete p))) = []" by auto
    with Cons.IH [OF u1 p1] Delete show ?thesis by (simp add: minted_append)
  qed
qed

lemma never_reminted_run_calls:
  assumes "users s u = Some usr" and "presents s u = Some ps"
    and "\<forall>q \<in> set ps. Present.id q < User.present_id usr"
  shows "never_reminted (run_calls s u cs)"
  using assms
proof (induction cs arbitrary: s usr ps)
  case Nil
  then show ?case by simp
next
  case (Cons c cs)
  show ?case
  proof (cases c)
    case (Create d)
    note st = call_step_create [OF Cons.prems(1,2), of d]
    from st have u1: "users (snd (call_step s u (Create d))) u
        = Some (usr\<lparr>User.present_id := User.present_id usr + 1\<rparr>)" by simp
    from st have p1: "presents (snd (call_step s u (Create d))) u
        = Some (ps @ [create_to_present d (User.present_id usr) (next_ref s)])" by simp
    have b1: "\<forall>q \<in> set (ps @ [create_to_present d (User.present_id usr) (next_ref s)]).
        Present.id q < User.present_id (usr\<lparr>User.present_id := User.present_id usr + 1\<rparr>)"
      using Cons.prems(3) by (auto simp: create_to_present_def)
    from Cons.IH [OF u1 p1 b1] st Create show ?thesis by simp
  next
    case (Delete p)
    note st = call_step_delete [OF Cons.prems(1,2), of p]
    from st obtain ps' where p1: "presents (snd (call_step s u (Delete p))) u = Some ps'"
      and sub: "set ps' \<subseteq> set ps"
      by blast
    from st have u1: "users (snd (call_step s u (Delete p))) u = Some usr" by simp
    from sub Cons.prems(3) have b1: "\<forall>q \<in> set ps'. Present.id q < User.present_id usr" by blast
    note rest = Cons.IH [OF u1 p1 b1]
    from st have "fst (call_step s u (Delete p)) = [] \<or>
          fst (call_step s u (Delete p)) = [Deleted p] \<and> p \<in> Present.id ` set ps" by simp
    then show ?thesis
    proof
      assume "fst (call_step s u (Delete p)) = []"
      with rest Delete show ?thesis by simp
    next
      assume d: "fst (call_step s u (Delete p)) = [Deleted p] \<and> p \<in> Present.id ` set ps"
      with Cons.prems(3) have "p < User.present_id usr" by auto
      then have "p \<notin> set (minted (run_calls (snd (call_step s u (Delete p))) u cs))"
        unfolding minted_run_calls [OF u1 p1] by auto
      with rest d Delete show ?thesis by simp
    qed
  qed
qed

text \<open>
  C8. In every sequence of \<^verbatim>\<open>create_present\<close> and \<^verbatim>\<open>delete_present\<close> calls for an existing
  owner, the id of a deleted present is claimed never to be minted again. In
  \<open>store_counter_behind\<close> alice's counter is 2 and her list holds a present with id 2:
  deleting it and creating a present mints 2 again. Such a store is also reached through
  the service: in \<open>store0\<close>, where alice's counter is 3, an update of the present with id 2
  with the payload \<open>renumber\<close>, whose id is 3, leaves a list with the ids 1 and 3, and
  deleting the present with id 3 and creating a present mints 3 again.
\<close>

theorem C8_deleted_id_minted_again:
  "users store_counter_behind ''alice'' = Some (alice\<lparr>User.present_id := 2\<rparr>) \<and>
   presents store_counter_behind ''alice'' = Some [book, bike] \<and>
   run_calls store_counter_behind ''alice'' [Delete 2, Create socks] = [Deleted 2, Minted 2] \<and>
   \<not> never_reminted (run_calls store_counter_behind ''alice'' [Delete 2, Create socks]) \<and>
   users store0 ''alice'' = Some alice \<and>
   map Present.id [book, bike] = [1, 2] \<and>
   presents (snd (update_present store0 ''alice'' 2 renumber)) ''alice''
     = Some [book, wish_to_present renumber 1] \<and>
   run_calls (snd (update_present store0 ''alice'' 2 renumber)) ''alice'' [Delete 3, Create socks]
     = [Deleted 3, Minted 3] \<and>
   \<not> never_reminted
       (run_calls (snd (update_present store0 ''alice'' 2 renumber)) ''alice''
          [Delete 3, Create socks])"
proof -
  have a: "users store_counter_behind ''alice'' = Some (alice\<lparr>User.present_id := 2\<rparr>)"
    by (simp add: store_counter_behind_def)
  have b: "presents store_counter_behind ''alice'' = Some [book, bike]"
    by (simp add: store_counter_behind_def)
  have m2: "(2::int) \<in> Present.id ` set [book, bike]" by (simp add: bike_def)
  have p2: "position_of 2 [book, bike] = 1" by (simp add: position_of_def book_def bike_def)
  note d1 = delete_present_found [OF b m2, unfolded p2]
  have us1: "users (snd (delete_present store_counter_behind ''alice'' 2)) ''alice''
      = Some (alice\<lparr>User.present_id := 2\<rparr>)"
    by (simp add: d1 a)
  have ps1: "presents (snd (delete_present store_counter_behind ''alice'' 2)) ''alice''
      = Some [book]"
    by (simp add: d1)
  note c1 = create_present_step [OF us1 ps1, of socks]
  have c: "run_calls store_counter_behind ''alice'' [Delete 2, Create socks]
      = [Deleted 2, Minted 2]"
    using c1 by (auto simp: call_step_def d1)
  have e: "users store0 ''alice'' = Some alice" by (simp add: store0_def)
  have f: "presents store0 ''alice'' = Some [book, bike]" by (simp add: store0_def)
  have g: "map Present.id [book, bike] = [1, 2]" by (simp add: book_def bike_def)
  note u1 = update_present_found [OF f m2, of renumber, unfolded p2]
  have h: "presents (snd (update_present store0 ''alice'' 2 renumber)) ''alice''
     = Some [book, wish_to_present renumber 1]"
    by (simp add: u1 bike_def)
  have us: "users (snd (update_present store0 ''alice'' 2 renumber)) ''alice'' = Some alice"
    by (simp add: u1 e)
  have m3: "(3::int) \<in> Present.id ` set [book, wish_to_present renumber 1]"
    by (simp add: wish_to_present_def renumber_def)
  have p3: "position_of 3 [book, wish_to_present renumber 1] = 1"
    by (simp add: position_of_def book_def wish_to_present_def renumber_def)
  note d2 = delete_present_found [OF h m3, unfolded p3]
  have us2: "users (snd (delete_present (snd (update_present store0 ''alice'' 2 renumber))
                 ''alice'' 3)) ''alice'' = Some alice"
    by (simp add: d2 us)
  have ps2: "presents (snd (delete_present (snd (update_present store0 ''alice'' 2 renumber))
                 ''alice'' 3)) ''alice'' = Some [book]"
    by (simp add: d2)
  note c2 = create_present_step [OF us2 ps2, of socks]
  have i: "run_calls (snd (update_present store0 ''alice'' 2 renumber)) ''alice''
             [Delete 3, Create socks] = [Deleted 3, Minted 3]"
    using c2 by (auto simp: call_step_def d2 alice_def)
  from a b c e g h i show ?thesis by simp
qed

text \<open>
  C8, as the code has it. For an owner \<open>u\<close> with a user record and a list: two \<^verbatim>\<open>create_present\<close> calls in
  sequence succeed and return lists whose new (last) presents have the ids \<open>c\<close> and \<open>c + 1\<close>,
  where \<open>c\<close> is the owner's counter before the first call, and they leave the counter at
  \<open>c + 1\<close> and \<open>c + 2\<close>. In every sequence of \<^verbatim>\<open>create_present\<close> and \<^verbatim>\<open>delete_present\<close> calls
  for \<open>u\<close> the ids minted are \<open>c, c + 1, c + 2, \<dots>\<close>, one for each create, strictly
  increasing, so no id minted in the sequence is minted again whatever is deleted in
  between; and when the ids of the list are below the counter at the start, as ids minted
  from it are, no id of any present deleted in the sequence is minted after the deletion.
\<close>

theorem C8_present_ids_minted_from_counter:
  assumes "users s u = Some usr" and "presents s u = Some ps"
  shows "(\<exists>v1 s1 v2 s2.
            create_present s u c1 = (Inr v1, s1) \<and> create_present s1 u c2 = (Inr v2, s2) \<and>
            PresentWishData.id (last v1) = User.present_id usr \<and>
            PresentWishData.id (last v2) = User.present_id usr + 1 \<and>
            PresentWishData.id (last v1) < PresentWishData.id (last v2) \<and>
            users s1 u = Some (usr\<lparr>User.present_id := User.present_id usr + 1\<rparr>) \<and>
            users s2 u = Some (usr\<lparr>User.present_id := User.present_id usr + 2\<rparr>)) \<and>
         minted (run_calls s u cs) = map (\<lambda>k. User.present_id usr + int k) [0..<creates cs] \<and>
         sorted_wrt (<) (minted (run_calls s u cs)) \<and>
         ((\<forall>q \<in> set ps. Present.id q < User.present_id usr) \<longrightarrow>
            never_reminted (run_calls s u cs))"
proof (intro conjI impI)
  from create_present_step [OF assms, of c1] obtain v1 s1 where
    a: "create_present s u c1 = (Inr v1, s1)"
       "PresentWishData.id (last v1) = User.present_id usr"
       "users s1 u = Some (usr\<lparr>User.present_id := User.present_id usr + 1\<rparr>)"
       "presents s1 u = Some (ps @ [create_to_present c1 (User.present_id usr) (next_ref s)])"
    by blast
  from create_present_step [OF a(3,4), of c2] obtain v2 s2 where
    b: "create_present s1 u c2 = (Inr v2, s2)"
       "PresentWishData.id (last v2) = User.present_id usr + 1"
       "users s2 u = Some (usr\<lparr>User.present_id := User.present_id usr + 2\<rparr>)"
    by auto
  from a b show "\<exists>v1 s1 v2 s2.
            create_present s u c1 = (Inr v1, s1) \<and> create_present s1 u c2 = (Inr v2, s2) \<and>
            PresentWishData.id (last v1) = User.present_id usr \<and>
            PresentWishData.id (last v2) = User.present_id usr + 1 \<and>
            PresentWishData.id (last v1) < PresentWishData.id (last v2) \<and>
            users s1 u = Some (usr\<lparr>User.present_id := User.present_id usr + 1\<rparr>) \<and>
            users s2 u = Some (usr\<lparr>User.present_id := User.present_id usr + 2\<rparr>)"
    by (intro exI [of _ v1] exI [of _ s1] exI [of _ v2] exI [of _ s2]) simp
next
  show "minted (run_calls s u cs) = map (\<lambda>k. User.present_id usr + int k) [0..<creates cs]"
    by (rule minted_run_calls [OF assms])
next
  show "sorted_wrt (<) (minted (run_calls s u cs))"
    unfolding minted_run_calls [OF assms] by (simp add: sorted_wrt_map)
next
  assume "\<forall>q \<in> set ps. Present.id q < User.present_id usr"
  with assms show "never_reminted (run_calls s u cs)"
    by (rule never_reminted_run_calls)
qed

theorem C8_present_ids_minted_from_counter_witness:
  "users store0 ''alice'' = Some alice \<and> presents store0 ''alice'' = Some [book, bike] \<and>
   Present.id book < User.present_id alice \<and> Present.id bike < User.present_id alice \<and>
   (\<exists>v1 s1 v2 s2.
      create_present store0 ''alice'' socks = (Inr v1, s1) \<and>
      create_present s1 ''alice'' socks = (Inr v2, s2) \<and>
      PresentWishData.id (last v1) = 3 \<and> PresentWishData.id (last v2) = 4) \<and>
   minted (run_calls store0 ''alice'' [Create socks, Delete 3, Create socks]) = [3, 4] \<and>
   never_reminted (run_calls store0 ''alice'' [Create socks, Delete 3, Create socks])"
proof -
  have a: "users store0 ''alice'' = Some alice" by (simp add: store0_def)
  have b: "presents store0 ''alice'' = Some [book, bike]" by (simp add: store0_def)
  have c: "Present.id book < User.present_id alice" "Present.id bike < User.present_id alice"
    by (simp_all add: book_def bike_def alice_def)
  then have d: "\<forall>q \<in> set [book, bike]. Present.id q < User.present_id alice" by simp
  have e: "User.present_id alice = 3" by (simp add: alice_def)
  note t = C8_present_ids_minted_from_counter
    [OF a b, where ?c1.0 = socks and ?c2.0 = socks
       and cs = "[Create socks, Delete 3, Create socks]"]
  from t [THEN conjunct1] e have r1: "\<exists>v1 s1 v2 s2.
      create_present store0 ''alice'' socks = (Inr v1, s1) \<and>
      create_present s1 ''alice'' socks = (Inr v2, s2) \<and>
      PresentWishData.id (last v1) = 3 \<and> PresentWishData.id (last v2) = 4"
    by auto
  from t [THEN conjunct2, THEN conjunct1] e
  have r2: "minted (run_calls store0 ''alice'' [Create socks, Delete 3, Create socks]) = [3, 4]"
    by (simp add: upt_rec)
  from t [THEN conjunct2, THEN conjunct2, THEN conjunct2] d
  have r3: "never_reminted (run_calls store0 ''alice'' [Create socks, Delete 3, Create socks])"
    by blast
  from a b c r1 r2 r3 show ?thesis by (intro conjI)
qed

section \<open>The list invariants\<close>

lemma lists_ok_upsert:
  "lists_ok s \<Longrightarrow> list_invariants (lists s) ps \<Longrightarrow>
     lists_ok (s\<lparr>presents := (presents s)(u \<mapsto> ps)\<rparr>)"
  by (simp add: lists_ok_def)

text \<open>A list object that gets duplicate-free contents breaks no invariant.\<close>

lemma invariants_heap:
  "list_invariants h ps \<Longrightarrow> distinct a \<Longrightarrow> list_invariants (h(r := a)) ps"
  by (simp add: list_invariants_def)

lemma lists_ok_heap:
  "lists_ok s \<Longrightarrow> distinct a \<Longrightarrow> lists_ok (s\<lparr>lists := (lists s)(r := a)\<rparr>)"
  by (simp add: lists_ok_def invariants_heap)

lemma invariants_found:
  "list_invariants h ps \<Longrightarrow> i < length ps \<Longrightarrow> distinct (h (Present.assigned_to (ps ! i)))"
  by (simp add: list_invariants_def)

lemma invariants_deleted:
  assumes "list_invariants h ps"
  shows "list_invariants h (take i ps @ drop (Suc i) ps)"
proof -
  from assms have d: "distinct (map Present.id ps)" by (simp add: list_invariants_def)
  have "set (take i (map Present.id ps)) \<inter> set (drop (Suc i) (map Present.id ps)) = {}"
    by (rule set_take_disj_set_drop_if_distinct [OF d]) simp
  with d have "distinct (take i (map Present.id ps) @ drop (Suc i) (map Present.id ps))"
    by simp
  then have "distinct (map Present.id (take i ps @ drop (Suc i) ps))"
    by (simp add: take_map drop_map)
  moreover have "set (take i ps @ drop (Suc i) ps) \<subseteq> set ps"
    using set_take_subset [of i ps] set_drop_subset [of "Suc i" ps] by auto
  ultimately show ?thesis using assms by (auto simp: list_invariants_def)
qed

lemma invariants_updated:
  assumes "list_invariants h ps" and "i < length ps"
    and "PresentWishData.id d = Present.id (ps ! i) \<or> PresentWishData.id d \<notin> Present.id ` set ps"
  shows "list_invariants h (ps[i := wish_to_present d (Present.assigned_to (ps ! i))])"
proof -
  let ?new = "wish_to_present d (Present.assigned_to (ps ! i))"
  from assms(1) have dist: "distinct (map Present.id ps)" by (simp add: list_invariants_def)
  have idn: "Present.id ?new = PresentWishData.id d" by (simp add: wish_to_present_def)
  from assms(2,3) have "PresentWishData.id d \<notin> set (map Present.id ps) - {map Present.id ps ! i}"
    by auto
  with dist have "distinct ((map Present.id ps)[i := PresentWishData.id d])"
    by (rule distinct_list_update)
  then have a: "distinct (map Present.id (ps[i := ?new]))" by (simp add: map_update idn)
  have "distinct (h (Present.assigned_to ?new))"
    using assms(1,2) by (simp add: wish_to_present_def list_invariants_def)
  moreover have "set (ps[i := ?new]) \<subseteq> insert ?new (set ps)" by (rule set_update_subset_insert)
  ultimately have b: "\<forall>q \<in> set (ps[i := ?new]). distinct (h (Present.assigned_to q))"
    using assms(1) by (auto simp: list_invariants_def)
  from a b show ?thesis by (simp add: list_invariants_def)
qed

lemma invariants_created:
  assumes "list_invariants h ps" and "n \<notin> Present.id ` set ps"
  shows "list_invariants (h(r := [])) (ps @ [create_to_present c n r])"
  using assms by (auto simp: list_invariants_def create_to_present_def)

lemma perform_update_ok:
  assumes "lists_ok s" and "admissible s (UpdatePresent u p d)"
  shows "lists_ok (perform s (UpdatePresent u p d))"
proof (cases "presents s u")
  case None
  from absent_list_raises(1) [OF None] assms(1) show ?thesis by simp
next
  case (Some ps)
  with assms(1) have inv: "list_invariants (lists s) ps" by (simp add: lists_ok_def)
  show ?thesis
  proof (cases "p \<in> Present.id ` set ps")
    case False
    from find_present_missing [OF Some False] assms(1) show ?thesis
      by (simp add: update_present_def)
  next
    case True
    from assms(2) Some position_of_id [OF True]
    have "PresentWishData.id d = Present.id (ps ! position_of p ps) \<or>
          PresentWishData.id d \<notin> Present.id ` set ps" by simp
    from invariants_updated [OF inv position_of_less [OF True] this]
      update_present_found [OF Some True, of d] lists_ok_upsert [OF assms(1)]
    show ?thesis by simp
  qed
qed

lemma perform_delete_ok:
  assumes "lists_ok s"
  shows "lists_ok (perform s (DeletePresent u p))"
proof (cases "presents s u")
  case None
  from absent_list_raises(2) [OF None] assms(1) show ?thesis by simp
next
  case (Some ps)
  with assms(1) have inv: "list_invariants (lists s) ps" by (simp add: lists_ok_def)
  show ?thesis
  proof (cases "p \<in> Present.id ` set ps")
    case False
    from find_present_missing [OF Some False] assms(1) show ?thesis
      by (simp add: delete_present_def)
  next
    case True
    from invariants_deleted [OF inv] delete_present_found [OF Some True]
      lists_ok_upsert [OF assms(1)]
    show ?thesis by simp
  qed
qed

lemma perform_assign_ok:
  assumes "lists_ok s"
  shows "lists_ok (perform s (AssignUser u p g))"
proof (cases "presents s u")
  case None
  from absent_list_raises(3) [OF None] assms(1) show ?thesis by simp
next
  case (Some ps)
  with assms(1) have inv: "list_invariants (lists s) ps" by (simp add: lists_ok_def)
  show ?thesis
  proof (cases "p \<in> Present.id ` set ps")
    case False
    from find_present_missing [OF Some False] assms(1) show ?thesis
      by (simp add: assign_user_to_present_def)
  next
    case True
    note found = this
    show ?thesis
    proof (cases "g \<in> set (lists s (Present.assigned_to (ps ! position_of p ps)))")
      case True
      from assign_skips [OF Some found True] assms show ?thesis by simp
    next
      case False
      from invariants_found [OF inv position_of_less [OF found]] False
      have "distinct (lists s (Present.assigned_to (ps ! position_of p ps)) @ [g])" by simp
      from lists_ok_heap [OF assms this] assign_writes [OF Some found False]
      show ?thesis by simp
    qed
  qed
qed

lemma perform_remove_ok:
  assumes "lists_ok s"
  shows "lists_ok (perform s (RemoveUser u p g))"
proof (cases "presents s u")
  case None
  from absent_list_raises(4) [OF None] assms(1) show ?thesis by simp
next
  case (Some ps)
  with assms(1) have inv: "list_invariants (lists s) ps" by (simp add: lists_ok_def)
  show ?thesis
  proof (cases "p \<in> Present.id ` set ps")
    case False
    from find_present_missing [OF Some False] assms(1) show ?thesis
      by (simp add: remove_user_from_present_def)
  next
    case True
    note found = this
    show ?thesis
    proof (cases "g \<in> set (lists s (Present.assigned_to (ps ! position_of p ps)))")
      case False
      from remove_skips [OF Some found False] assms show ?thesis by simp
    next
      case True
      from invariants_found [OF inv position_of_less [OF found]]
      have "distinct (remove1 g (lists s (Present.assigned_to (ps ! position_of p ps))))"
        by simp
      from lists_ok_heap [OF assms this] remove_writes [OF Some found True]
      show ?thesis by simp
    qed
  qed
qed

lemma perform_create_ok:
  assumes "lists_ok s" and "admissible s (CreatePresent u c)"
  shows "lists_ok (perform s (CreatePresent u c))"
proof (cases "users s u")
  case None
  with assms(1) show ?thesis by (simp add: create_present_def get_user_def)
next
  case (Some usr)
  show ?thesis
  proof (cases "presents s u")
    case None
    with Some assms(1) show ?thesis
      by (simp add: create_present_def get_user_def get_presents_def upsert_user_def Let_def
          lists_ok_def)
  next
    case (Some ps)
    with assms(1) have inv: "list_invariants (lists s) ps" by (simp add: lists_ok_def)
    from assms(2) \<open>users s u = Some usr\<close> Some
    have "User.present_id usr \<notin> Present.id ` set ps" by simp
    from invariants_created [OF inv this, of "next_ref s" c] assms(1)
    have "lists_ok (s\<lparr>users := (users s)(u \<mapsto> usr\<lparr>User.present_id := User.present_id usr + 1\<rparr>,
                               User.name usr \<mapsto> usr\<lparr>User.present_id := User.present_id usr + 1\<rparr>),
        presents := (presents s)(u \<mapsto> ps @ [create_to_present c (User.present_id usr) (next_ref s)]),
        lists := (lists s)(next_ref s := []),
        next_ref := Suc (next_ref s)\<rparr>)"
      by (simp add: lists_ok_def invariants_heap)
    with create_present_found [OF \<open>users s u = Some usr\<close> Some, of c] show ?thesis by simp
  qed
qed

lemma perform_ok:
  "lists_ok s \<Longrightarrow> admissible s c \<Longrightarrow> lists_ok (perform s c)"
  by (cases c)
    (simp_all only: perform_create_ok perform_update_ok perform_delete_ok perform_assign_ok
      perform_remove_ok)

text \<open>The same for the invariant of the \<open>assigned_to\<close> lists alone, with no proviso.\<close>

lemma assigned_ok_upsert:
  "assigned_ok s \<Longrightarrow> \<forall>q \<in> set ps. distinct (lists s (Present.assigned_to q)) \<Longrightarrow>
     assigned_ok (s\<lparr>presents := (presents s)(u \<mapsto> ps)\<rparr>)"
  by (simp add: assigned_ok_def)

lemma assigned_ok_heap:
  "assigned_ok s \<Longrightarrow> distinct a \<Longrightarrow> assigned_ok (s\<lparr>lists := (lists s)(r := a)\<rparr>)"
  by (simp add: assigned_ok_def)

lemma assigned_replaced:
  assumes "\<forall>q \<in> set ps. distinct (h (Present.assigned_to q))"
    and "distinct (h (Present.assigned_to x))"
  shows "\<forall>q \<in> set (ps[i := x]). distinct (h (Present.assigned_to q))"
  using assms set_update_subset_insert [of ps i x] by auto

lemma assigned_deleted:
  assumes "\<forall>q \<in> set ps. distinct (h (Present.assigned_to q))"
  shows "\<forall>q \<in> set (take i ps @ drop (Suc i) ps). distinct (h (Present.assigned_to q))"
  using assms set_take_subset [of i ps] set_drop_subset [of "Suc i" ps] by auto

lemma perform_assigned_ok:
  assumes "assigned_ok s"
  shows "assigned_ok (perform s c)"
proof (cases c)
  case (CreatePresent u d)
  show ?thesis
  proof (cases "users s u")
    case None
    with assms CreatePresent show ?thesis by (simp add: create_present_def get_user_def)
  next
    case (Some usr)
    show ?thesis
    proof (cases "presents s u")
      case None
      with Some assms CreatePresent show ?thesis
        by (simp add: create_present_def get_user_def get_presents_def upsert_user_def Let_def
            assigned_ok_def)
    next
      case (Some ps)
      from assms Some have "\<forall>q \<in> set ps. distinct (lists s (Present.assigned_to q))"
        by (simp add: assigned_ok_def)
      then have "\<forall>q \<in> set (ps @ [create_to_present d (User.present_id usr) (next_ref s)]).
          distinct (((lists s)(next_ref s := [])) (Present.assigned_to q))"
        by (auto simp: create_to_present_def)
      with assms
      have "assigned_ok (s\<lparr>users := (users s)(u \<mapsto> usr\<lparr>User.present_id := User.present_id usr + 1\<rparr>,
                               User.name usr \<mapsto> usr\<lparr>User.present_id := User.present_id usr + 1\<rparr>),
        presents := (presents s)(u \<mapsto> ps @ [create_to_present d (User.present_id usr) (next_ref s)]),
        lists := (lists s)(next_ref s := []),
        next_ref := Suc (next_ref s)\<rparr>)"
        by (simp add: assigned_ok_def)
      with create_present_found [OF \<open>users s u = Some usr\<close> Some, of d] CreatePresent
      show ?thesis by simp
    qed
  qed
next
  case (UpdatePresent u p d)
  show ?thesis
  proof (cases "presents s u")
    case None
    from absent_list_raises(1) [OF None] assms UpdatePresent show ?thesis by simp
  next
    case (Some ps)
    from assms Some have all: "\<forall>q \<in> set ps. distinct (lists s (Present.assigned_to q))"
      by (simp add: assigned_ok_def)
    show ?thesis
    proof (cases "p \<in> Present.id ` set ps")
      case False
      from find_present_missing [OF Some False] assms UpdatePresent show ?thesis
        by (simp add: update_present_def)
    next
      case True
      from all position_of_less [OF True]
      have "distinct (lists s (Present.assigned_to
              (wish_to_present d (Present.assigned_to (ps ! position_of p ps)))))"
        by (simp add: wish_to_present_def)
      from assigned_replaced [OF all this] update_present_found [OF Some True, of d]
        assigned_ok_upsert [OF assms] UpdatePresent
      show ?thesis by simp
    qed
  qed
next
  case (DeletePresent u p)
  show ?thesis
  proof (cases "presents s u")
    case None
    from absent_list_raises(2) [OF None] assms DeletePresent show ?thesis by simp
  next
    case (Some ps)
    from assms Some have all: "\<forall>q \<in> set ps. distinct (lists s (Present.assigned_to q))"
      by (simp add: assigned_ok_def)
    show ?thesis
    proof (cases "p \<in> Present.id ` set ps")
      case False
      from find_present_missing [OF Some False] assms DeletePresent show ?thesis
        by (simp add: delete_present_def)
    next
      case True
      from assigned_deleted [OF all] delete_present_found [OF Some True]
        assigned_ok_upsert [OF assms] DeletePresent
      show ?thesis by simp
    qed
  qed
next
  case (AssignUser u p g)
  show ?thesis
  proof (cases "presents s u")
    case None
    from absent_list_raises(3) [OF None] assms AssignUser show ?thesis by simp
  next
    case (Some ps)
    from assms Some have all: "\<forall>q \<in> set ps. distinct (lists s (Present.assigned_to q))"
      by (simp add: assigned_ok_def)
    show ?thesis
    proof (cases "p \<in> Present.id ` set ps")
      case False
      from find_present_missing [OF Some False] assms AssignUser show ?thesis
        by (simp add: assign_user_to_present_def)
    next
      case True
      note found = this
      show ?thesis
      proof (cases "g \<in> set (lists s (Present.assigned_to (ps ! position_of p ps)))")
        case True
        from assign_skips [OF Some found True] assms AssignUser show ?thesis by simp
      next
        case False
        with all position_of_less [OF found]
        have "distinct (lists s (Present.assigned_to (ps ! position_of p ps)) @ [g])"
          by simp
        from assigned_ok_heap [OF assms this] assign_writes [OF Some found False] AssignUser
        show ?thesis by simp
      qed
    qed
  qed
next
  case (RemoveUser u p g)
  show ?thesis
  proof (cases "presents s u")
    case None
    from absent_list_raises(4) [OF None] assms RemoveUser show ?thesis by simp
  next
    case (Some ps)
    from assms Some have all: "\<forall>q \<in> set ps. distinct (lists s (Present.assigned_to q))"
      by (simp add: assigned_ok_def)
    show ?thesis
    proof (cases "p \<in> Present.id ` set ps")
      case False
      from find_present_missing [OF Some False] assms RemoveUser show ?thesis
        by (simp add: remove_user_from_present_def)
    next
      case True
      note found = this
      show ?thesis
      proof (cases "g \<in> set (lists s (Present.assigned_to (ps ! position_of p ps)))")
        case False
        from remove_skips [OF Some found False] assms RemoveUser show ?thesis by simp
      next
        case True
        from all position_of_less [OF found]
        have "distinct (remove1 g (lists s (Present.assigned_to (ps ! position_of p ps))))"
          by simp
        from assigned_ok_heap [OF assms this] remove_writes [OF Some found True] RemoveUser
        show ?thesis by simp
      qed
    qed
  qed
qed

lemma perform_all_assigned_ok:
  "assigned_ok s \<Longrightarrow> assigned_ok (perform_all s cs)"
  by (induction cs arbitrary: s) (simp_all add: perform_assigned_ok)

lemma perform_all_lists_ok:
  "lists_ok s \<Longrightarrow> admissible_all s cs \<Longrightarrow> lists_ok (perform_all s cs)"
proof (induction cs arbitrary: s)
  case Nil
  then show ?case by simp
next
  case (Cons c cs)
  from Cons.prems have "lists_ok (perform s c)" and "admissible_all (perform s c) cs"
    by (simp_all add: perform_ok)
  then have "lists_ok (perform_all (perform s c) cs)" by (rule Cons.IH)
  then show ?case by simp
qed

lemma lists_ok_assigned_ok: "lists_ok s \<Longrightarrow> assigned_ok s"
  by (simp add: lists_ok_def assigned_ok_def list_invariants_def)

lemma lists_ok_store0: "lists_ok store0"
  by (simp add: lists_ok_def store0_def list_invariants_def book_def bike_def)

lemma find0_1: "find_present_in_list_by_id store0 ''alice'' 1 = Inr ([book, bike], book, 0)"
proof -
  have a: "presents store0 ''alice'' = Some [book, bike]" by (simp add: store0_def)
  have b: "(1::int) \<in> Present.id ` set [book, bike]" by (simp add: book_def)
  have c: "position_of 1 [book, bike] = 0" by (simp add: position_of_def book_def)
  from find_present_found [OF a b] c show ?thesis by simp
qed

lemma admissible_calls0: "admissible_all store0 calls0"
  by (simp add: calls0_def store0_def create_present_def update_present_def delete_present_def
      assign_user_to_present_def remove_user_from_present_def find_present_in_list_by_id_def
      get_user_def get_presents_def upsert_user_def upsert_presents_def Let_def
      alice_def book_def bike_def socks_def retitled_def novel_def
      create_to_present_def wish_to_present_def present_eq_def)

text \<open>
  C7. Every operation is claimed to preserve the list invariants. In \<open>store0\<close>, where they
  hold, updating the present with id 1 with the payload \<open>clash\<close>, whose id is 2, leaves two
  presents with id 2. And in \<open>store_counter_behind\<close>, where they hold and alice's counter is
  2 while her list has a present with id 2, \<^verbatim>\<open>create_present\<close> appends a second present
  with id 2.
\<close>

theorem C7_update_present_duplicates_id:
  "lists_ok store0 \<and>
   presents (perform store0 (UpdatePresent ''alice'' 1 clash)) ''alice''
     = Some [wish_to_present clash 0, bike] \<and>
   \<not> distinct (map Present.id [wish_to_present clash 0, bike]) \<and>
   \<not> lists_ok (perform store0 (UpdatePresent ''alice'' 1 clash)) \<and>
   lists_ok store_counter_behind \<and>
   presents (perform store_counter_behind (CreatePresent ''alice'' socks)) ''alice''
     = Some [book, bike, create_to_present socks 2 2] \<and>
   \<not> distinct (map Present.id [book, bike, create_to_present socks 2 2]) \<and>
   \<not> lists_ok (perform store_counter_behind (CreatePresent ''alice'' socks))"
proof -
  have a: "presents (perform store0 (UpdatePresent ''alice'' 1 clash)) ''alice''
     = Some [wish_to_present clash 0, bike]"
    by (simp add: update_present_def find0_1 upsert_presents_def Let_def book_def)
  have b: "\<not> distinct (map Present.id [wish_to_present clash 0, bike])"
    by (simp add: wish_to_present_def clash_def bike_def)
  from a b have c: "\<not> lists_ok (perform store0 (UpdatePresent ''alice'' 1 clash))"
    unfolding lists_ok_def list_invariants_def by blast
  have d: "lists_ok store_counter_behind"
    by (simp add: lists_ok_def store_counter_behind_def list_invariants_def book_def bike_def)
  have e: "presents (perform store_counter_behind (CreatePresent ''alice'' socks)) ''alice''
     = Some [book, bike, create_to_present socks 2 2]"
    by (simp add: create_present_def get_user_def get_presents_def upsert_user_def
        upsert_presents_def Let_def store_counter_behind_def alice_def)
  have f: "\<not> distinct (map Present.id [book, bike, create_to_present socks 2 2])"
    by (simp add: create_to_present_def bike_def)
  from e f have g: "\<not> lists_ok (perform store_counter_behind (CreatePresent ''alice'' socks))"
    unfolding lists_ok_def list_invariants_def by blast
  from lists_ok_store0 a b c d e f g show ?thesis by (intro conjI)
qed

text \<open>
  C7, as the code has it. From a store in which every list satisfies the invariants, every
  sequence of \<^verbatim>\<open>create_present\<close>, \<^verbatim>\<open>update_present\<close>, \<^verbatim>\<open>delete_present\<close>,
  \<^verbatim>\<open>assign_user_to_present\<close> and \<^verbatim>\<open>remove_user_from_present\<close> calls, each admissible in
  the store it is made in, leads to a store in which every list satisfies them; deletions,
  assignments and removals are always admissible. And from a store in which no
  \<open>assigned_to\<close> has a duplicate, every sequence of the five calls leads to such a store.
\<close>

theorem C7_operations_preserve_list_invariants:
  "(lists_ok s \<longrightarrow> admissible_all s cs \<longrightarrow> lists_ok (perform_all s cs)) \<and>
   (assigned_ok s \<longrightarrow> assigned_ok (perform_all s cs))"
  by (simp add: perform_all_lists_ok perform_all_assigned_ok)

theorem C7_operations_preserve_list_invariants_witness:
  "lists_ok store0 \<and> admissible_all store0 calls0 \<and> lists_ok (perform_all store0 calls0) \<and>
   assigned_ok store0 \<and> assigned_ok (perform_all store0 (UpdatePresent ''alice'' 1 clash # calls0))"
proof -
  note t = C7_operations_preserve_list_invariants [of store0 calls0]
  note t' = C7_operations_preserve_list_invariants
    [of store0 "UpdatePresent ''alice'' 1 clash # calls0"]
  have a: "assigned_ok store0" by (rule lists_ok_assigned_ok [OF lists_ok_store0])
  from t lists_ok_store0 admissible_calls0 have r1: "lists_ok (perform_all store0 calls0)"
    by blast
  from t' a have r2: "assigned_ok (perform_all store0 (UpdatePresent ''alice'' 1 clash # calls0))"
    by blast
  from lists_ok_store0 admissible_calls0 r1 a r2 show ?thesis by (intro conjI)
qed

section \<open>New list objects are new\<close>

text \<open>
  The concrete registries used here hold allocated addresses only, and every operation
  keeps it so: the list object that \<^verbatim>\<open>create_present\<close> builds is never one that a present
  of the store holds already.
\<close>

lemma refs_allocated_heap:
  "refs_allocated (s\<lparr>lists := h\<rparr>) = refs_allocated s"
  by (simp add: refs_allocated_def)

lemma refs_allocated_upsert:
  "refs_allocated s \<Longrightarrow> \<forall>q \<in> set ps. Present.assigned_to q < next_ref s \<Longrightarrow>
     refs_allocated (s\<lparr>presents := (presents s)(u \<mapsto> ps)\<rparr>)"
  by (simp add: refs_allocated_def)

lemma perform_refs_allocated:
  assumes "refs_allocated s"
  shows "refs_allocated (perform s c)"
proof (cases c)
  case (CreatePresent u d)
  show ?thesis
  proof (cases "users s u")
    case None
    with assms CreatePresent show ?thesis by (simp add: create_present_def get_user_def)
  next
    case (Some usr)
    show ?thesis
    proof (cases "presents s u")
      case None
      with Some assms CreatePresent show ?thesis
        by (simp add: create_present_def get_user_def get_presents_def upsert_user_def Let_def
            refs_allocated_def)
    next
      case (Some ps)
      let ?new = "create_to_present d (User.present_id usr) (next_ref s)"
      have old: "Present.assigned_to q < Suc (next_ref s)"
        if "presents s v = Some qs" and "q \<in> set qs" for v qs q
        using assms that unfolding refs_allocated_def by (blast intro: less_SucI)
      have new: "Present.assigned_to ?new < Suc (next_ref s)"
        by (simp add: create_to_present_def)
      have "Present.assigned_to q < Suc (next_ref s)"
        if "((presents s)(u \<mapsto> ps @ [?new])) v = Some qs" and "q \<in> set qs" for v qs q
      proof (cases "v = u")
        case True
        with that have "q \<in> set ps \<or> q = ?new" by auto
        with old [OF Some] new show ?thesis by blast
      next
        case False
        with that old show ?thesis by simp
      qed
      then
      have "refs_allocated (s\<lparr>users := (users s)(u \<mapsto> usr\<lparr>User.present_id := User.present_id usr + 1\<rparr>,
                               User.name usr \<mapsto> usr\<lparr>User.present_id := User.present_id usr + 1\<rparr>),
        presents := (presents s)(u \<mapsto> ps @ [?new]),
        lists := (lists s)(next_ref s := []),
        next_ref := Suc (next_ref s)\<rparr>)"
        unfolding refs_allocated_def by simp
      with create_present_found [OF \<open>users s u = Some usr\<close> Some, of d] CreatePresent
      show ?thesis by simp
    qed
  qed
next
  case (UpdatePresent u p d)
  show ?thesis
  proof (cases "presents s u")
    case None
    from absent_list_raises(1) [OF None] assms UpdatePresent show ?thesis by simp
  next
    case (Some ps)
    from assms Some have all: "\<forall>q \<in> set ps. Present.assigned_to q < next_ref s"
      by (simp add: refs_allocated_def)
    show ?thesis
    proof (cases "p \<in> Present.id ` set ps")
      case False
      from find_present_missing [OF Some False] assms UpdatePresent show ?thesis
        by (simp add: update_present_def)
    next
      case True
      let ?new = "wish_to_present d (Present.assigned_to (ps ! position_of p ps))"
      from all position_of_less [OF True] have "Present.assigned_to ?new < next_ref s"
        by (simp add: wish_to_present_def)
      with all set_update_subset_insert [of ps "position_of p ps" ?new]
      have "\<forall>q \<in> set (ps[position_of p ps := ?new]). Present.assigned_to q < next_ref s"
        by auto
      from refs_allocated_upsert [OF assms this] update_present_found [OF Some True, of d]
        UpdatePresent
      show ?thesis by simp
    qed
  qed
next
  case (DeletePresent u p)
  show ?thesis
  proof (cases "presents s u")
    case None
    from absent_list_raises(2) [OF None] assms DeletePresent show ?thesis by simp
  next
    case (Some ps)
    from assms Some have all: "\<forall>q \<in> set ps. Present.assigned_to q < next_ref s"
      by (simp add: refs_allocated_def)
    show ?thesis
    proof (cases "p \<in> Present.id ` set ps")
      case False
      from find_present_missing [OF Some False] assms DeletePresent show ?thesis
        by (simp add: delete_present_def)
    next
      case True
      from all set_take_subset [of "position_of p ps" ps]
        set_drop_subset [of "Suc (position_of p ps)" ps]
      have "\<forall>q \<in> set (take (position_of p ps) ps @ drop (Suc (position_of p ps)) ps).
          Present.assigned_to q < next_ref s"
        by auto
      from refs_allocated_upsert [OF assms this] delete_present_found [OF Some True]
        DeletePresent
      show ?thesis by simp
    qed
  qed
next
  case (AssignUser u p g)
  show ?thesis
  proof (cases "presents s u")
    case None
    from absent_list_raises(3) [OF None] assms AssignUser show ?thesis by simp
  next
    case (Some ps)
    show ?thesis
    proof (cases "p \<in> Present.id ` set ps")
      case False
      from find_present_missing [OF Some False] assms AssignUser show ?thesis
        by (simp add: assign_user_to_present_def)
    next
      case True
      from assign_outcome [OF Some True, of g] assms AssignUser show ?thesis
        by (auto simp: refs_allocated_heap)
    qed
  qed
next
  case (RemoveUser u p g)
  show ?thesis
  proof (cases "presents s u")
    case None
    from absent_list_raises(4) [OF None] assms RemoveUser show ?thesis by simp
  next
    case (Some ps)
    show ?thesis
    proof (cases "p \<in> Present.id ` set ps")
      case False
      from find_present_missing [OF Some False] assms RemoveUser show ?thesis
        by (simp add: remove_user_from_present_def)
    next
      case True
      from remove_outcome [OF Some True, of g] assms RemoveUser show ?thesis
        by (auto simp: refs_allocated_heap)
    qed
  qed
qed

lemma refs_allocated_examples:
  "refs_allocated store0" "refs_allocated store_shared" "refs_allocated store_counter_behind"
  "refs_allocated store0_regifted" "refs_allocated store_no_list"
  by (simp_all add: refs_allocated_def store0_def store_shared_def store_counter_behind_def
      store0_regifted_def store_no_list_def book_def bike_def bike_shared_def)

end
